theory Spec2Isabelle
  imports Complex_Main "HOL-Library.Monad_Syntax" "HOL-Library.Log_Nat"
begin

section \<open>Machine integers\<close>

text \<open>
  The class \<open>CTRWfractal<int32_t, T>\<close> keeps its index arrays (\<open>lattice\<close>,
  \<open>occupation\<close>, \<open>nn\<close>, ...) in \<open>arma::Col<int32_t>\<close>, its sizes in
  \<open>uint32_t\<close> and the sentinel \<open>EMPTY\<close> in an \<open>int64_t\<close>. Values are modelled
  as \<open>int\<close>; every conversion the source performs is written out.
\<close>

definition u32 :: "int \<Rightarrow> int" where
  "u32 x = x mod 2 ^ 32"

definition u64 :: "int \<Rightarrow> int" where
  "u64 x = x mod 2 ^ 64"

definition i32 :: "int \<Rightarrow> int" where
  "i32 x = (x + 2 ^ 31) mod 2 ^ 32 - 2 ^ 31"

section \<open>Double precision\<close>

text \<open>
  A finite \<open>double\<close> is a rational number. \<open>fl\<close> rounds a rational to the
  nearest number with a 53-bit significand, ties to even: the result of one
  arithmetic operation (or of reading a decimal literal) in IEEE 754 binary64,
  for results in the normal range (no overflow, no subnormal numbers).
\<close>

definition pow2 :: "int \<Rightarrow> rat" where
  "pow2 e = (if 0 \<le> e then 2 ^ nat e else 1 / 2 ^ nat (- e))"

definition ilog2 :: "rat \<Rightarrow> int" where
  "ilog2 x = (if 1 \<le> x then bitlen \<lfloor>x\<rfloor> - 1 else - bitlen (\<lceil>1 / x\<rceil> - 1))"

definition round_even :: "rat \<Rightarrow> int" where
  "round_even m =
     (let f = \<lfloor>m\<rfloor>; d = m - of_int f
      in if d < 1 / 2 then f else if 1 / 2 < d then f + 1
         else if even f then f else f + 1)"

definition fl :: "rat \<Rightarrow> rat" where
  "fl x = (if x = 0 then 0
           else let q = pow2 (ilog2 \<bar>x\<bar> - 52)
                in of_int (round_even (x / q)) * q)"

text \<open>
  \<open>EMPTY = (-N - 1)\<close> with \<open>N\<close> of type \<open>uint32_t\<close>: the negation and the
  subtraction are unsigned 32-bit operations, and the result is widened to the
  \<open>int64_t\<close> member without change of value.
\<close>

definition EMPTY :: "nat \<Rightarrow> int" where
  "EMPTY N = u32 (u32 (- int N) - 1)"

text \<open>The conversion of a double to an integer type truncates towards zero.\<close>

definition trunc :: "rat \<Rightarrow> int" where
  "trunc x = (if 0 \<le> x then \<lfloor>x\<rfloor> else \<lceil>x\<rceil>)"

section \<open>The lattice array\<close>

text \<open>
  An element access \<open>lattice(i)\<close> is bounds-checked by the container; an index
  outside the array does not return normally. \<open>None\<close> stands for every way of not
  returning normally (a failed bounds check, or a recursion that never ends).
\<close>

definition lat_get :: "int list \<Rightarrow> int \<Rightarrow> int option" where
  "lat_get l i = (if 0 \<le> i \<and> i < int (length l) then Some (l ! nat i) else None)"

definition lat_set :: "int list \<Rightarrow> int \<Rightarrow> int \<Rightarrow> int list option" where
  "lat_set l i v = (if 0 \<le> i \<and> i < int (length l) then Some (l[nat i := i32 v]) else None)"

text \<open>
  \<open>FindRoot\<close>: a site with a negative entry is its own root; otherwise the root of
  the site it points to is found, stored in \<open>lattice(i)\<close> and returned.
\<close>

partial_function (option) FindRoot :: "int list \<Rightarrow> int \<Rightarrow> (int \<times> int list) option" where
  "FindRoot l i =
     (case lat_get l i of
        None \<Rightarrow> None
      | Some v \<Rightarrow>
          if v < 0 then Some (i, l)
          else FindRoot l v \<bind>
                 (\<lambda>rl. lat_set (snd rl) i (fst rl) \<bind>
                    (\<lambda>l''. Some (i32 (fst rl), l''))))"

declare FindRoot.simps [code]

section \<open>Percolation\<close>

text \<open>
  The union of two distinct roots inside \<open>Percolate\<close>
  (\<open>if (lattice(r1) > lattice(r2)) ... else ...\<close>). The result is the new lattice
  and the new value of \<open>r1\<close>.
\<close>

definition union_roots :: "int list \<Rightarrow> int \<Rightarrow> int \<Rightarrow> (int list \<times> int) option" where
  "union_roots l r1 r2 =
     do {
       a \<leftarrow> lat_get l r1;
       b \<leftarrow> lat_get l r2;
       if a > b then
         do {
           l1 \<leftarrow> lat_set l r2 (b + a);
           l2 \<leftarrow> lat_set l1 r1 r2;
           Some (l2, r2)
         }
       else
         do {
           l1 \<leftarrow> lat_set l r1 (a + b);
           l2 \<leftarrow> lat_set l1 r2 r1;
           Some (l2, r1)
         }
     }"

text \<open>The state of the loops of \<open>Percolate\<close>: the lattice, \<open>r1\<close> and \<open>big\<close>.\<close>

record pstate =
  lat :: "int list"
  root1 :: int
  big :: int

text \<open>
  One pass of the inner loop body for the neighbour \<open>s2\<close>. The test
  \<open>lattice(s2) != EMPTY\<close> compares the \<open>int32_t\<close> element, widened to 64 bits,
  with the \<open>int64_t\<close> member \<open>EMPTY\<close>.
\<close>

definition visit_neighbour :: "int \<Rightarrow> pstate \<Rightarrow> int \<Rightarrow> pstate option" where
  "visit_neighbour E st s2 =
     do {
       v \<leftarrow> lat_get (lat st) s2;
       if v \<noteq> E then
         do {
           (r2, l1) \<leftarrow> FindRoot (lat st) s2;
           if r2 \<noteq> root1 st then
             do {
               (l2, r1') \<leftarrow> union_roots l1 (root1 st) r2;
               m \<leftarrow> lat_get l2 r1';
               Some \<lparr>lat = l2, root1 = r1',
                     big = (if - m > big st then i32 (- m) else big st)\<rparr>
             }
           else Some (st\<lparr>lat := l1\<rparr>)
         }
       else Some st
     }"

fun visit_neighbours :: "int \<Rightarrow> pstate \<Rightarrow> int list \<Rightarrow> pstate option" where
  "visit_neighbours E st [] = Some st"
| "visit_neighbours E st (s2 # ss) =
     (case visit_neighbour E st s2 of
        None \<Rightarrow> None
      | Some st' \<Rightarrow> visit_neighbours E st' ss)"

text \<open>
  The neighbour table \<open>nn\<close> is a matrix with one column per site; the model keeps
  the list of columns. \<open>nn_col\<close> is the bounds-checked read of a column.
\<close>

definition nn_col :: "int list list \<Rightarrow> int \<Rightarrow> int list option" where
  "nn_col nn s = (if 0 \<le> s \<and> s < int (length nn) then Some (nn ! nat s) else None)"

text \<open>The body of the outer loop for the site \<open>s1 = occupation[i]\<close>.\<close>

definition occupy :: "int \<Rightarrow> int list list \<Rightarrow> int list \<times> int \<Rightarrow> int \<Rightarrow> (int list \<times> int) option" where
  "occupy E nn lb s1 =
     do {
       l1 \<leftarrow> lat_set (fst lb) s1 (- 1);
       col \<leftarrow> nn_col nn s1;
       st \<leftarrow> visit_neighbours E \<lparr>lat = l1, root1 = s1, big = snd lb\<rparr> col;
       Some (lat st, big st)
     }"


text \<open>
  The outer loop of \<open>Percolate\<close>:
  \<open>for (uint32_t i = 0; i < (threshold * N) - 1; i++)\<close>. The bound is computed
  in double precision once per test; the state is the lattice and \<open>big\<close>. The
  value of \<open>i\<close> at the exit is returned with the state: it is the number of
  sites that were occupied.
\<close>

function percolate_loop ::
  "rat \<Rightarrow> int \<Rightarrow> int list list \<Rightarrow> int list \<Rightarrow> nat \<Rightarrow> int list \<times> int
     \<Rightarrow> ((int list \<times> int) \<times> nat) option" where
  "percolate_loop bound E nn occ i lb =
     (if of_nat i < bound then
        (case lat_get occ (int i) of
           None \<Rightarrow> None
         | Some s1 \<Rightarrow>
             (case occupy E nn lb s1 of
                None \<Rightarrow> None
              | Some lb' \<Rightarrow> percolate_loop bound E nn occ (Suc i) lb'))
      else Some (lb, i))"
  by pat_completeness auto
termination
proof (relation "measure (\<lambda>(bound, E, nn, occ, i, lb). nat \<lceil>bound\<rceil> - i)")
  show "wf (measure (\<lambda>(bound, E, nn, occ, i, lb). nat \<lceil>bound :: rat\<rceil> - i))"
    by simp
next
  fix bound :: rat and E :: int and nn :: "int list list" and occ :: "int list"
    and i :: nat and lb :: "int list \<times> int" and s1 :: int and lb' :: "int list \<times> int"
  assume "of_nat i < bound"
  then have "int i < \<lceil>bound\<rceil>"
    by (simp add: less_ceiling_iff)
  then show "((bound, E, nn, occ, Suc i, lb'), (bound, E, nn, occ, i, lb))
               \<in> measure (\<lambda>(bound, E, nn, occ, i, lb). nat \<lceil>bound\<rceil> - i)"
    by simp
qed

declare percolate_loop.simps [simp del]

text \<open>
  \<open>Percolate\<close>: every site is set to \<open>EMPTY\<close> (the \<open>int64_t\<close> value narrowed to
  the \<open>int32_t\<close> element), then the outer loop runs.
\<close>

definition percolate_bound :: "rat \<Rightarrow> nat \<Rightarrow> rat" where
  "percolate_bound threshold N = fl (fl (threshold * of_nat N) - 1)"

definition Percolate ::
  "nat \<Rightarrow> rat \<Rightarrow> int list list \<Rightarrow> int list \<Rightarrow> ((int list \<times> int) \<times> nat) option" where
  "Percolate N threshold nn occ =
     percolate_loop (percolate_bound threshold N) (EMPTY N) nn occ 0
       (replicate N (i32 (EMPTY N)), 0)"

section \<open>Neighbour tables\<close>

text \<open>
  The index arithmetic of the two table builders is unsigned: the loop index \<open>i\<close>
  is a \<open>size_t\<close>, \<open>N\<close> and \<open>gridSize\<close> are \<open>uint32_t\<close>. The value of an
  expression built from \<open>+\<close>, \<open>-\<close> and \<open>*\<close> in an unsigned type is its exact
  value modulo \<open>2^64\<close> (or \<open>2^32\<close> for a subexpression without \<open>i\<close>), which is
  how the entries are written below. Each entry is narrowed to \<open>int32_t\<close> when it
  is stored. Every pass of a builder's loop writes column \<open>i\<close> only.
\<close>

text \<open>\<open>BoundariesSquare\<close>.\<close>

definition square_col :: "nat \<Rightarrow> nat \<Rightarrow> nat \<Rightarrow> int list" where
  "square_col g N i =
     (let n0 = u64 (int i + 1) mod int N;
          n1 = u64 (int i + int N - 1) mod int N;
          n2 = u64 (int i + int g) mod int N;
          n3 = u64 (int i + int N - int g) mod int N;
          n1' = (if i mod g = 0 then u64 (int i + int g - 1) else n1);
          n0' = (if u64 (int i + 1) mod int g = 0 then u64 (int i - int g + 1) else n0)
      in map i32 [n0', n1', n2, n3])"

definition BoundariesSquare :: "nat \<Rightarrow> nat \<Rightarrow> int list list" where
  "BoundariesSquare g N = map (square_col g N) [0..<N]"

text \<open>\<open>N = gridSize * gridSize\<close> in \<open>uint32_t\<close>.\<close>

definition square_N :: "nat \<Rightarrow> nat" where
  "square_N g = nat (u32 (int g * int g))"


text \<open>
  The honeycomb lattice: \<open>N = gridSize * gridSize * 4\<close> in \<open>uint32_t\<close>, and the
  arrays \<open>firstRow\<close> and \<open>lastRow\<close> that \<open>Initialize\<close> fills for
  \<open>i = 1, ..., 2 * gridSize\<close>. The two formulas are evaluated in double precision;
  every intermediate value is a multiple of \<open>1/2\<close> far below \<open>2^53\<close>, hence
  exact, and is written here as a rational. The result is truncated into the
  \<open>int32_t\<close> element.
\<close>

definition honey_N :: "nat \<Rightarrow> nat" where
  "honey_N g = nat (u32 (int g * int g * 4))"

definition firstRow_entry :: "nat \<Rightarrow> nat \<Rightarrow> int" where
  "firstRow_entry g i =
     i32 (trunc (1 - (1 / 2) * of_int (u32 (3 * int g))
                 + (1 / 2) * ((- 1) ^ i * of_nat g)
                 + of_int (u64 (2 * int i * int g)) - 1))"

definition lastRow_entry :: "nat \<Rightarrow> nat \<Rightarrow> int" where
  "lastRow_entry g i =
     i32 (trunc ((1 / 2) * of_nat g * (of_int (u64 (4 * int i)) + (- 1) ^ (i + 1) - 1) - 1))"

definition firstRow_array :: "nat \<Rightarrow> int list" where
  "firstRow_array g = map (firstRow_entry g) [1..<Suc (nat (u32 (2 * int g)))]"

definition lastRow_array :: "nat \<Rightarrow> int list" where
  "lastRow_array g = map (lastRow_entry g) [1..<Suc (nat (u32 (2 * int g)))]"

text \<open>
  \<open>BoundariesHoneycomb\<close>: the column written in pass \<open>i\<close> when the loop variable
  \<open>currentCol\<close> has the value \<open>cc\<close>. The tests \<open>arma::any(firstRow == i)\<close> compare
  the elements with \<open>i\<close> converted to \<open>int32_t\<close>.
\<close>

definition honey_col :: "nat \<Rightarrow> nat \<Rightarrow> int list \<Rightarrow> int list \<Rightarrow> nat \<Rightarrow> nat \<Rightarrow> int list" where
  "honey_col g N fr lr cc i =
     (let j = int i; L = int g; M = int N; L2 = u32 (2 * int g)
      in map (\<lambda>x. i32 (u64 x))
           (if i = 0 then [j + L, j + L2 - 1, j + M - L]
            else if j = u32 (M - L) then [j - 1, j - L, j - M + L]
            else if j = u32 (M - L - 1) then [j - L, j + L, j + 1]
            else if i < g then [j + L - 1, j + L, j + M - L]
            else if j > u32 (M - L) then [j - L - 1, j - L, j - M + L]
            else if cc = 0 then
              (if i32 j \<in> set fr then [j - L, j + L, j + L2 - 1]
               else [j - L, j + L - 1, j + L])
            else if cc = 1 then
              (if i32 j \<in> set lr then [j - L, j + L, j - L2 + 1]
               else [j - L, j - L + 1, j + L])
            else if cc = 2 then
              (if i32 j \<in> set lr then [j - L, j + L, j + 1]
               else [j - L, j + L, j + L + 1])
            else
              (if i32 j \<in> set fr then [j - 1, j - L, j + L]
               else [j - L - 1, j - L, j + L])))"

text \<open>
  The loop of \<open>BoundariesHoneycomb\<close> with its variables \<open>count\<close> and
  \<open>currentCol\<close>, which are updated at the end of a pass when
  \<open>(i + 1) % gridSize == 0\<close>.
\<close>

fun honey_loop ::
  "nat \<Rightarrow> nat \<Rightarrow> int list \<Rightarrow> int list \<Rightarrow> nat list \<Rightarrow> nat \<Rightarrow> nat \<Rightarrow> int list list" where
  "honey_loop g N fr lr [] count cc = []"
| "honey_loop g N fr lr (i # js) count cc =
     honey_col g N fr lr cc i #
       (if (i + 1) mod g = 0 then honey_loop g N fr lr js (count + 1) ((count + 1) mod 4)
        else honey_loop g N fr lr js count cc)"

definition BoundariesHoneycomb :: "nat \<Rightarrow> nat \<Rightarrow> int list \<Rightarrow> int list \<Rightarrow> int list list" where
  "BoundariesHoneycomb g N fr lr = honey_loop g N fr lr [0..<N] 0 0"

text \<open>
  The neighbour table that \<open>Initialize\<close> builds for \<open>latticeMode\<close> 0 (square)
  or 1 (honeycomb), with its number of sites; for any other mode nothing is built.
\<close>

definition neighbour_table :: "nat \<Rightarrow> nat \<Rightarrow> (nat \<times> nat \<times> int list list) option" where
  "neighbour_table latticeMode g =
     (if latticeMode = 1 then
        Some (3, honey_N g, BoundariesHoneycomb g (honey_N g) (firstRow_array g) (lastRow_array g))
      else if latticeMode = 0 then
        Some (4, square_N g, BoundariesSquare g (square_N g))
      else None)"

section \<open>Random walks: the start site\<close>

text \<open>
  \<open>GetOccupiedNeighbours\<close>: the column of \<open>pos\<close> in the neighbour table, filtered
  by the element-wise test \<open>lattice(neighbours(k)) == EMPTY\<close> (an \<open>int32_t\<close>
  element against the \<open>int64_t\<close> member).
\<close>

definition GetOccupiedNeighbours :: "int \<Rightarrow> int list list \<Rightarrow> int list \<Rightarrow> int \<Rightarrow> int list option" where
  "GetOccupiedNeighbours E nn l pos =
     do {
       col \<leftarrow> nn_col nn pos;
       chk \<leftarrow> those (map (\<lambda>s. map_option (\<lambda>v. v \<noteq> E) (lat_get l s)) col);
       Some (map fst (filter snd (zip col chk)))
     }"

text \<open>
  The candidate start pool \<open>latticeOnes\<close> of \<open>RandomWalks\<close>. The comparisons here
  are container operations (\<open>lattice > EMPTY\<close>, \<open>lattice == idxMin(0)\<close>,
  \<open>lattice != EMPTY\<close>): the scalar is first converted to the element type
  \<open>int32_t\<close>. \<open>min()\<close> of an empty selection does not return normally.
\<close>

definition start_pool :: "nat \<Rightarrow> int \<Rightarrow> int list \<Rightarrow> int list option" where
  "start_pool walkMode E l =
     (if walkMode = 1 then
        (let occ = filter (\<lambda>v. v > i32 E) l
         in if occ = [] then None
            else
              (let latticeMin = Min (set occ)
               in case filter (\<lambda>i. l ! i = latticeMin) [0..<length l] of
                    [] \<Rightarrow> None
                  | r # _ \<Rightarrow>
                      Some (map (\<lambda>i. i32 (int i))
                             (filter (\<lambda>i. l ! i = i32 (int r)) [0..<length l] @ [r]))))
      else Some (map (\<lambda>i. i32 (int i)) (filter (\<lambda>i. l ! i \<noteq> i32 E) [0..<length l])))"

definition countMax :: "nat \<Rightarrow> nat" where
  "countMax N = min (max N 100000) 100000000"

text \<open>
  The \<open>do ... while (!okStart)\<close> loop. \<open>draws k\<close> is the value the \<open>k\<close>-th call
  \<open>RandSample(RNG)\<close> returns. The result is the last sampled site, the final
  \<open>countLoop\<close> and the number of samples drawn.
\<close>

function start_loop ::
  "int \<Rightarrow> int list list \<Rightarrow> int list \<Rightarrow> int list \<Rightarrow> (nat \<Rightarrow> int) \<Rightarrow> nat \<Rightarrow> nat \<Rightarrow> nat
     \<Rightarrow> (int \<times> nat \<times> nat) option" where
  "start_loop E nn l pool draws cmax countLoop k =
     (case lat_get pool (draws k) of
        None \<Rightarrow> None
      | Some pos \<Rightarrow>
          (case GetOccupiedNeighbours E nn l pos of
             None \<Rightarrow> None
           | Some nbs \<Rightarrow>
               if length nbs > 0 \<or> countLoop \<ge> cmax then Some (pos, countLoop, Suc k)
               else start_loop E nn l pool draws cmax (Suc countLoop) (Suc k)))"
  by pat_completeness auto
termination
  by (relation "measure (\<lambda>(E, nn, l, pool, draws, cmax, countLoop, k). cmax - countLoop)") auto

declare start_loop.simps [simp del]

text \<open>
  The classification of a step from \<open>prev = walks(j - 1)\<close> to \<open>pos\<close> as a crossing
  of a periodic boundary.
\<close>

definition boundary_flag :: "int list \<Rightarrow> int list \<Rightarrow> int \<Rightarrow> int \<Rightarrow> int \<Rightarrow> int \<Rightarrow> nat" where
  "boundary_flag firstRow lastRow boundary1 boundary2 prev pos =
     (if prev \<in> set firstRow \<and> pos \<in> set lastRow then 1
      else if prev \<in> set lastRow \<and> pos \<in> set firstRow then 2
      else if prev \<ge> boundary2 \<and> pos < boundary1 then 3
      else if prev < boundary1 \<and> pos \<ge> boundary2 then 4
      else 0)"

text \<open>
  The stepping loop \<open>for (j = 1; j < simLength; j++)\<close>; \<open>choices j\<close> is the value
  of \<open>RandChoice(RNG)\<close> in pass \<open>j\<close>. The walk so far is kept in reverse.
\<close>

fun walk_steps ::
  "int \<Rightarrow> int list list \<Rightarrow> int list \<Rightarrow> int list \<Rightarrow> int list \<Rightarrow> int \<Rightarrow> int \<Rightarrow> (nat \<Rightarrow> int)
     \<Rightarrow> nat \<Rightarrow> nat \<Rightarrow> int \<Rightarrow> int list \<times> nat list \<Rightarrow> (int list \<times> nat list) option" where
  "walk_steps E nn l firstRow lastRow b1 b2 choices 0 j pos (ws, bs) = Some (rev ws, rev bs)"
| "walk_steps E nn l firstRow lastRow b1 b2 choices (Suc n) j pos (ws, bs) =
     (case GetOccupiedNeighbours E nn l pos of
        None \<Rightarrow> None
      | Some nbs \<Rightarrow>
          (case lat_get nbs (choices j) of
             None \<Rightarrow> None
           | Some pos' \<Rightarrow>
               walk_steps E nn l firstRow lastRow b1 b2 choices n (Suc j) pos'
                 (i32 pos' # ws, boundary_flag firstRow lastRow b1 b2 (hd ws) pos' # bs)))"

text \<open>
  The lattice walk of one pass of the outer loop of \<open>RandomWalks\<close>: the arrays
  \<open>walks\<close> and \<open>boundaryDetect\<close>, with the final \<open>countLoop\<close>.
\<close>

definition lattice_walk ::
  "nat \<Rightarrow> nat \<Rightarrow> nat \<Rightarrow> int \<Rightarrow> int list list \<Rightarrow> int list \<Rightarrow> int list \<Rightarrow> int list \<Rightarrow> int list
     \<Rightarrow> (nat \<Rightarrow> int) \<Rightarrow> (nat \<Rightarrow> int) \<Rightarrow> (int list \<times> nat list \<times> nat) option" where
  "lattice_walk gridSize N simLength E nn l firstRow lastRow pool draws choices =
     do {
       (pos, countLoop, k) \<leftarrow> start_loop E nn l pool draws (countMax N) 0 0;
       if countLoop = countMax N then
         Some (replicate simLength (i32 pos), replicate simLength 0, countLoop)
       else if simLength = 0 then None
       else
         do {
           (ws, bs) \<leftarrow> walk_steps E nn l firstRow lastRow (int gridSize) (int N - int gridSize)
                         choices (simLength - 1) 1 pos ([i32 pos], [0]);
           Some (ws, bs, countLoop)
         }
     }"


section \<open>Analysis of the walks\<close>

text \<open>
  The statistics are \<open>double\<close> values. A value of the model is a finite double,
  given as a rational number, or non-finite (a NaN or an infinity), which is what
  \<open>arma::find_nonfinite\<close> tests.

  \<open>dbl\<close> rounds the exact result of one operation to binary64: to the nearest
  number with a 53-bit significand, ties to even; below \<open>2^-1022\<close> to the nearest
  multiple of \<open>2^-1074\<close> (the subnormal numbers); and to an infinity when the
  rounded magnitude reaches \<open>2^1024\<close>.
\<close>

datatype dval = Fin rat | NonFinite

definition is_nonfinite :: "dval \<Rightarrow> bool" where
  "is_nonfinite v = (case v of Fin _ \<Rightarrow> False | NonFinite \<Rightarrow> True)"

definition dbl :: "rat \<Rightarrow> dval" where
  "dbl x =
     (if x = 0 then Fin 0
      else if ilog2 \<bar>x\<bar> < - 1022 then
        Fin (of_int (round_even (x / pow2 (- 1074))) * pow2 (- 1074))
      else let y = fl x in if 1024 \<le> ilog2 \<bar>y\<bar> then NonFinite else Fin y)"

text \<open>
  Addition, subtraction and multiplication. With a non-finite operand the result
  is non-finite (an infinity or a NaN).
\<close>

definition dadd :: "dval \<Rightarrow> dval \<Rightarrow> dval" where
  "dadd a b = (case (a, b) of (Fin x, Fin y) \<Rightarrow> dbl (x + y) | _ \<Rightarrow> NonFinite)"

definition dsub :: "dval \<Rightarrow> dval \<Rightarrow> dval" where
  "dsub a b = (case (a, b) of (Fin x, Fin y) \<Rightarrow> dbl (x - y) | _ \<Rightarrow> NonFinite)"

definition dmul :: "dval \<Rightarrow> dval \<Rightarrow> dval" where
  "dmul a b = (case (a, b) of (Fin x, Fin y) \<Rightarrow> dbl (x * y) | _ \<Rightarrow> NonFinite)"

text \<open>
  Division by a finite divisor \<open>y\<close>: \<open>x / 0\<close> is an infinity, or a NaN for
  \<open>x = 0\<close>, and a non-finite dividend gives a non-finite quotient.
\<close>

definition ddiv :: "dval \<Rightarrow> rat \<Rightarrow> dval" where
  "ddiv a y =
     (case a of
        Fin x \<Rightarrow> if y = 0 then NonFinite else dbl (x / y)
      | NonFinite \<Rightarrow> NonFinite)"

text \<open>\<open>arma::square\<close> multiplies an element with itself.\<close>

definition dsquare :: "dval \<Rightarrow> dval" where
  "dsquare a = dmul a a"

text \<open>\<open>SquaredDist\<close> on finite coordinates; every operation is rounded.\<close>

definition SquaredDist :: "rat \<Rightarrow> rat \<Rightarrow> rat \<Rightarrow> rat \<Rightarrow> dval" where
  "SquaredDist x1 x2 y1 y2 =
     (let a = dsub (Fin x1) (Fin x2); b = dsub (Fin y1) (Fin y2)
      in dadd (dmul a a) (dmul b b))"

text \<open>
  A walk is the list of its coordinate columns \<open>(x, y)\<close>, finite doubles;
  \<open>walk(0, i)\<close> and \<open>walk(1, i)\<close> are bounds-checked reads of column \<open>i\<close>.
\<close>

definition col_get :: "(rat \<times> rat) list \<Rightarrow> nat \<Rightarrow> (rat \<times> rat) option" where
  "col_get walk i = (if i < length walk then Some (walk ! i) else None)"

text \<open>The summation loop of \<open>TAMSD\<close> over the indices \<open>i = 0, ..., diff - 1\<close>.\<close>

fun tamsd_sum :: "(rat \<times> rat) list \<Rightarrow> nat \<Rightarrow> nat list \<Rightarrow> dval \<Rightarrow> dval option" where
  "tamsd_sum walk delta [] integral = Some integral"
| "tamsd_sum walk delta (i # js) integral =
     (case col_get walk (i + delta) of
        None \<Rightarrow> None
      | Some p \<Rightarrow>
          (case col_get walk i of
             None \<Rightarrow> None
           | Some q \<Rightarrow>
               tamsd_sum walk delta js
                 (dadd integral (SquaredDist (fst p) (fst q) (snd p) (snd q)))))"

text \<open>
  \<open>TAMSD\<close>: \<open>diff = t - delta\<close> is an unsigned 32-bit difference, \<open>integral\<close>
  starts at \<open>0.\<close>, and the result is \<open>integral / diff\<close> in double precision (the
  conversion of \<open>diff\<close> to \<open>double\<close> is exact): with \<open>diff = 0\<close> the loop body
  never runs and the quotient is \<open>0.0 / 0\<close>, a NaN.
\<close>

definition TAMSD :: "(rat \<times> rat) list \<Rightarrow> nat \<Rightarrow> nat \<Rightarrow> dval option" where
  "TAMSD walk t delta =
     (let diff = nat (u32 (int t - int delta))
      in case tamsd_sum walk delta [0..<diff] (Fin 0) of
           None \<Rightarrow> None
         | Some integral \<Rightarrow> Some (ddiv integral (of_nat diff)))"

text \<open>
  The body of the per-walk function of \<open>AnalyseWalks\<close> for one lag \<open>j\<close>: the
  entries \<open>eaMSDall(j - 1, i)\<close>, \<open>taMSD(j - 1, i)\<close> and \<open>eataMSDall(j - 1, i)\<close>.
\<close>

definition walk_entry :: "(rat \<times> rat) list \<Rightarrow> nat \<Rightarrow> nat \<Rightarrow> (dval \<times> dval \<times> dval) option" where
  "walk_entry walk walkLength j =
     do {
       walkOrigin \<leftarrow> col_get walk 0;
       walkStep \<leftarrow> col_get walk j;
       ta \<leftarrow> TAMSD walk walkLength j;
       eata \<leftarrow> TAMSD walk j 1;
       Some (SquaredDist (fst walkStep) (fst walkOrigin) (snd walkStep) (snd walkOrigin),
             ta, eata)
     }"

text \<open>The three columns that the per-walk function fills for one walk.\<close>

definition walk_columns ::
  "(rat \<times> rat) list \<Rightarrow> nat \<Rightarrow> (dval list \<times> dval list \<times> dval list) option" where
  "walk_columns walk walkLength =
     map_option (\<lambda>es. (map fst es, map (fst \<circ> snd) es, map (snd \<circ> snd) es))
       (those (map (walk_entry walk walkLength) [1..<walkLength]))"

text \<open>
  Modelled from the spec: the helper \<open>parallel(func, 0, nWalks, nJobs)\<close> is
  declared in a header that is not part of the sources. The spec describes it as a
  map of the independent per-walk computation over the walk indices, each writing
  its own output column; the model applies the per-walk function to the walks in
  order.
\<close>

definition parallel_columns ::
  "(rat \<times> rat) list list \<Rightarrow> nat \<Rightarrow> (dval list \<times> dval list \<times> dval list) list option" where
  "parallel_columns walksCoords walkLength =
     those (map (\<lambda>walk. walk_columns walk walkLength) walksCoords)"

text \<open>
  \<open>M.elem(find_nonfinite(K)).zeros()\<close> on matrices of the same shape (lists of
  columns): the entries of \<open>M\<close> at the positions where \<open>K\<close> is not finite become 0.
\<close>

definition zero_where_nonfinite :: "dval list list \<Rightarrow> dval list list \<Rightarrow> dval list list" where
  "zero_where_nonfinite K M =
     map (\<lambda>(k, m). map (\<lambda>(kv, mv). if is_nonfinite kv then Fin 0 else mv) (zip k m)) (zip K M)"

definition zero_nonfinite :: "dval list \<Rightarrow> dval list" where
  "zero_nonfinite v = map (\<lambda>x. if is_nonfinite x then Fin 0 else x) v"

text \<open>
  \<open>arma::mean(M, 1)\<close>, the mean of each row over the columns, as Armadillo
  computes it: the entries of the row are added in column order to an accumulator
  that starts at 0 and the sum is divided by the number of columns; when this
  quotient is not finite, the mean of the row is recomputed as the running mean
  \<open>r = r + (x - r) / (k + 1)\<close> over the columns \<open>k = 0, 1, ...\<close>.
\<close>

definition mean_robust :: "dval list \<Rightarrow> dval" where
  "mean_robust vs =
     foldl (\<lambda>r (x, k). dadd r (ddiv (dsub x r) (of_nat (Suc k)))) (Fin 0)
       (zip vs [0..<length vs])"

definition dmean :: "dval list \<Rightarrow> dval" where
  "dmean vs =
     (let m = ddiv (foldl dadd (Fin 0) vs) (of_nat (length vs))
      in if is_nonfinite m then mean_robust vs else m)"

definition row_means :: "nat \<Rightarrow> dval list list \<Rightarrow> dval list" where
  "row_means rows M = map (\<lambda>r. dmean (map (\<lambda>c. c ! r) M)) [0..<rows]"

text \<open>
  \<open>AnalyseWalks\<close>, for \<open>nWalks > 0\<close> walks (the caller's guard). The result is
  the list of columns of \<open>analysis\<close>: ensemble MSD, ensemble-time-average MSD,
  ergodicity, then one time-average MSD column per walk. For \<open>walkLength = 1\<close>
  the statistics have no rows while \<open>regspace(1, walkLength - 1)\<close> has the two
  elements 1 and 0, and the element-wise division \<open>ergodicity /= ...\<close> raises.
  In \<open>(meanTAMSD2 - meanTAMSD) / meanTAMSD\<close> a non-finite divisor makes the
  dividend non-finite as well, and the quotient is then a NaN.
\<close>

definition AnalyseWalks :: "(rat \<times> rat) list list \<Rightarrow> nat \<Rightarrow> dval list list option" where
  "AnalyseWalks walksCoords walkLength =
     (if walksCoords = [] \<or> walkLength < 2 then None
      else
        do {
          cols \<leftarrow> parallel_columns walksCoords walkLength;
          let rows = walkLength - 1;
              eaMSDall = map fst cols;
              taMSD = map (fst \<circ> snd) cols;
              eataMSDall = map (snd \<circ> snd) cols;
              taMSD1 = zero_where_nonfinite taMSD taMSD;
              eaMSDall1 = zero_where_nonfinite eataMSDall eaMSDall;
              eaMSD = row_means rows eaMSDall1;
              eataMSD = zero_nonfinite (row_means rows eataMSDall);
              meanTAMSD = map dsquare (row_means rows taMSD1);
              meanTAMSD2 = row_means rows (map (map dsquare) taMSD1);
              erg1 = zero_nonfinite
                 (map (\<lambda>(a, b). case b of Fin y \<Rightarrow> ddiv (dsub a b) y | NonFinite \<Rightarrow> NonFinite)
                    (zip meanTAMSD2 meanTAMSD));
              ergodicity = zero_nonfinite
                 (map (\<lambda>(e, r). ddiv e (of_nat (Suc r))) (zip erg1 [0..<rows]))
          in Some ([eaMSD, eataMSD, ergodicity] @ taMSD1)
        })"


section \<open>The occupation order\<close>

text \<open>
  \<open>Permutation\<close>. \<open>draws i\<close> is the value of \<open>UniformDistribution(RNG)\<close> in pass
  \<open>i\<close> of the second loop, a \<open>uint32_t\<close> in \<open>[0, 4294967294]\<close>. The swap index
  \<open>j = i + (N - i) * permConstant * u\<close> is computed in double precision from left
  to right (\<open>N - i\<close> is a \<open>size_t\<close>) and then truncated into the \<open>int32_t\<close>
  variable \<open>j\<close>. \<open>permConstant\<close> is the double nearest to the literal
  \<open>2.3283064e-10\<close>.
\<close>

definition permConstant :: rat where
  "permConstant = fl (23283064 / 10 ^ 17)"

definition perm_index :: "nat \<Rightarrow> nat \<Rightarrow> nat \<Rightarrow> int" where
  "perm_index N i u =
     i32 (trunc (fl (fl (of_nat i)
                     + fl (fl (fl (of_int (u64 (int N - int i))) * permConstant) * of_nat u))))"

text \<open>
  The swap \<open>t_ = occupation(i); occupation(i) = occupation(j); occupation(j) = t_\<close>
  with bounds-checked accesses.
\<close>

definition perm_swap :: "int list \<Rightarrow> int \<Rightarrow> int \<Rightarrow> int list option" where
  "perm_swap occ i j =
     do {
       t \<leftarrow> lat_get occ i;
       oj \<leftarrow> lat_get occ j;
       occ1 \<leftarrow> lat_set occ i oj;
       lat_set occ1 j t
     }"

fun perm_loop :: "nat \<Rightarrow> (nat \<Rightarrow> nat) \<Rightarrow> nat list \<Rightarrow> int list \<Rightarrow> int list option" where
  "perm_loop N draws [] occ = Some occ"
| "perm_loop N draws (i # js) occ =
     (case perm_swap occ (int i) (perm_index N i (draws i)) of
        None \<Rightarrow> None
      | Some occ' \<Rightarrow> perm_loop N draws js occ')"

definition Permutation :: "nat \<Rightarrow> (nat \<Rightarrow> nat) \<Rightarrow> int list option" where
  "Permutation N draws = perm_loop N draws [0..<N] (map (\<lambda>i. i32 (int i)) [0..<N])"


section \<open>Invariants of the lattice\<close>




definition neg_part :: "int \<Rightarrow> int" where
  "neg_part v = (if v < 0 then - v else 0)"

definition weight :: "int list \<Rightarrow> int" where
  "weight l = (\<Sum>v\<leftarrow>l. neg_part v)"



section \<open>The lattices in coordinates\<close>

text \<open>
  The four entries that \<open>BoundariesSquare\<close> writes for site \<open>a\<close> of a
  \<open>G \<times> G\<close> lattice, over the integers: the next and the previous site of
  the same block of \<open>G\<close> sites, and the sites \<open>G\<close> further and \<open>G\<close> back
  modulo \<open>G * G\<close>.
\<close>

definition sq0 :: "int \<Rightarrow> int \<Rightarrow> int" where
  "sq0 G a = (if (a + 1) mod G = 0 then a - G + 1 else a + 1)"

definition sq1 :: "int \<Rightarrow> int \<Rightarrow> int" where
  "sq1 G a = (if a mod G = 0 then a + G - 1 else a - 1)"

definition sq2 :: "int \<Rightarrow> int \<Rightarrow> int" where
  "sq2 G a = (a + G) mod (G * G)"

definition sq3 :: "int \<Rightarrow> int \<Rightarrow> int" where
  "sq3 G a = (a + G * G - G) mod (G * G)"

text \<open>
  A site \<open>i\<close> of the honeycomb lattice is written \<open>c * G + r\<close> with the block
  \<open>c = i div G\<close> (\<open>0 \<le> c < 4 * G\<close>) and the offset \<open>r = i mod G\<close>; the loop
  variable \<open>currentCol\<close> of \<open>BoundariesHoneycomb\<close> is \<open>c mod 4\<close>.
\<close>

definition hvalid :: "int \<Rightarrow> int \<times> int \<Rightarrow> bool" where
  "hvalid G p \<longleftrightarrow> 0 \<le> fst p \<and> fst p < 4 * G \<and> 0 \<le> snd p \<and> snd p < G"

definition site :: "int \<Rightarrow> int \<times> int \<Rightarrow> int" where
  "site G p = fst p * G + snd p"

text \<open>
  The branches of \<open>BoundariesHoneycomb\<close> with the tests read on the coordinates
  and the entries still written as offsets from the site \<open>j\<close>, \<open>M\<close> being the
  number of sites.
\<close>

definition hraw :: "int \<Rightarrow> int \<Rightarrow> int \<Rightarrow> int \<Rightarrow> int \<Rightarrow> int list" where
  "hraw G M j c r =
     (if c = 0 \<and> r = 0 then [j + G, j + 2 * G - 1, j + M - G]
      else if c = 4 * G - 1 \<and> r = 0 then [j - 1, j - G, j - M + G]
      else if c = 4 * G - 2 \<and> r = G - 1 then [j - G, j + G, j + 1]
      else if c = 0 then [j + G - 1, j + G, j + M - G]
      else if c = 4 * G - 1 \<and> r \<noteq> 0 then [j - G - 1, j - G, j - M + G]
      else if c mod 4 = 1 then
        (if r = G - 1 then [j - G, j + G, j - 2 * G + 1] else [j - G, j - G + 1, j + G])
      else if c mod 4 = 2 then
        (if r = G - 1 then [j - G, j + G, j + 1] else [j - G, j + G, j + G + 1])
      else if c mod 4 = 3 then
        (if r = 0 then [j - 1, j - G, j + G] else [j - G - 1, j - G, j + G])
      else
        (if r = 0 then [j - G, j + G, j + 2 * G - 1] else [j - G, j + G - 1, j + G]))"

text \<open>The same branches with the entries given by their coordinates.\<close>

definition hnc :: "int \<Rightarrow> int \<times> int \<Rightarrow> (int \<times> int) list" where
  "hnc G p =
     (let c = fst p; r = snd p
      in if c = 0 \<and> r = 0 then [(1, 0), (1, G - 1), (4 * G - 1, 0)]
         else if c = 4 * G - 1 \<and> r = 0 then [(4 * G - 2, G - 1), (4 * G - 2, 0), (0, 0)]
         else if c = 4 * G - 2 \<and> r = G - 1 then [(c - 1, r), (c + 1, r), (c + 1, 0)]
         else if c = 0 then [(1, r - 1), (1, r), (4 * G - 1, r)]
         else if c = 4 * G - 1 then [(c - 1, r - 1), (c - 1, r), (0, r)]
         else if c mod 4 = 1 then
           (if r = G - 1 then [(c - 1, r), (c + 1, r), (c - 1, 0)]
            else [(c - 1, r), (c - 1, r + 1), (c + 1, r)])
         else if c mod 4 = 2 then
           (if r = G - 1 then [(c - 1, r), (c + 1, r), (c + 1, 0)]
            else [(c - 1, r), (c + 1, r), (c + 1, r + 1)])
         else if c mod 4 = 3 then
           (if r = 0 then [(c - 1, G - 1), (c - 1, 0), (c + 1, 0)]
            else [(c - 1, r - 1), (c - 1, r), (c + 1, r)])
         else
           (if r = 0 then [(c - 1, 0), (c + 1, 0), (c + 1, G - 1)]
            else [(c - 1, r), (c + 1, r - 1), (c + 1, r)]))"

text \<open>
  Cyclic predecessor and successor in \<open>{0, ..., P - 1}\<close>, and the neighbours of a
  honeycomb site as a set: the previous and the next block at the same offset,
  and a third site whose block and offset depend on \<open>c mod 4\<close>.
\<close>

definition wdec :: "int \<Rightarrow> int \<Rightarrow> int" where
  "wdec P x = (if x = 0 then P - 1 else x - 1)"

definition winc :: "int \<Rightarrow> int \<Rightarrow> int" where
  "winc P x = (if x = P - 1 then 0 else x + 1)"

definition hnu :: "int \<Rightarrow> int \<times> int \<Rightarrow> (int \<times> int) set" where
  "hnu G p =
     (let c = fst p; r = snd p; k = c mod 4;
          cm = wdec (4 * G) c; cp = winc (4 * G) c; rm = wdec G r; rp = winc G r
      in if k = 1 then {(cm, r), (cm, rp), (cp, r)}
         else if k = 2 then {(cm, r), (cp, r), (cp, rp)}
         else if k = 3 then {(cm, rm), (cm, r), (cp, r)}
         else {(cm, r), (cp, rm), (cp, r)})"

section \<open>The union rule\<close>

lemma i32_id: "- (2 ^ 31) \<le> x \<Longrightarrow> x < 2 ^ 31 \<Longrightarrow> i32 x = x"
  by (simp add: i32_def)




section \<open>Percolation on a concrete lattice\<close>

text \<open>
  C1 (evaluation at a failing input). Square lattice, \<open>gridSize = 2\<close>
  (\<open>N = 4\<close>), \<open>threshold = 0.6\<close>, occupation order \<open>0, 1, 2, 3\<close>. The member
  \<open>EMPTY\<close> holds \<open>4294967291\<close>, the lattice is filled with its narrowed value
  \<open>-5\<close>, and the element-wise test \<open>lattice(s2) != EMPTY\<close> is true for every
  site. \<open>Percolate\<close> occupies the two sites 0 and 1 and returns the lattice
  \<open>[1, 3, 1, -6]\<close>: the sites 2 and 3 were never occupied but do not hold the
  sentinel \<open>-5\<close>, and the only root, site 3, stores the size 6 although two sites are
  occupied.
\<close>

theorem Percolate_square2_example:
  "EMPTY (square_N 2) = 4294967291
   \<and> i32 (EMPTY (square_N 2)) = - 5
   \<and> Percolate (square_N 2) (fl (6 / 10)) (BoundariesSquare 2 (square_N 2)) [0, 1, 2, 3]
       = Some (([1, 3, 1, - 6], 11), 2)"
  by code_simp

section \<open>The start pool\<close>

text \<open>
  C5 (evaluation at a failing input). On the lattice that \<open>Percolate\<close> returns for
  the square lattice with \<open>gridSize = 2\<close>, \<open>threshold = 0.6\<close> and occupation order
  \<open>0, 1, 2, 3\<close>, every site has the root 3, which stores the largest size. With
  \<open>walkMode = 1\<close> the pool is \<open>[0]\<close>: it holds neither the root nor the other
  sites of its tree. With any other \<open>walkMode\<close> the pool is the list of sites whose
  entry differs from the stored sentinel.
\<close>

theorem start_pool_square2_example:
  "Percolate 4 (fl (6 / 10)) (BoundariesSquare 2 4) [0, 1, 2, 3] = Some (([1, 3, 1, - 6], 11), 2)
   \<and> map (\<lambda>i. map_option fst (FindRoot [1, 3, 1, - 6] i)) [0, 1, 2, 3]
       = [Some 3, Some 3, Some 3, Some 3]
   \<and> start_pool 1 (EMPTY 4) [1, 3, 1, - 6] = Some [0]
   \<and> start_pool 0 (EMPTY 4) [1, 3, 1, - 6] = Some [0, 1, 2, 3]"
  by code_simp

text \<open>
  The pool of \<open>walkMode = 1\<close> is the root together with the sites whose entry
  \<^emph>\<open>is\<close> the root index. On a lattice that encodes the cluster \<open>{0, 1, 2}\<close> as
  the chain \<open>2 \<rightarrow> 1 \<rightarrow> 0\<close> (\<open>N = 4\<close>, site 3 empty), site 2 belongs to the cluster of
  root 0 but is not in the pool.
\<close>

lemma start_pool_chain_example:
  "start_pool 1 (EMPTY 4) [- 3, 0, 1, - 5] = Some [1, 0]
   \<and> map_option fst (FindRoot [- 3, 0, 1, - 5] 2) = Some 0"
  by code_simp

section \<open>The start-site search\<close>

lemma GetOccupiedNeighbours_defined:
  assumes "0 \<le> p" "p < int (length nn)"
    and "\<forall>col\<in>set nn. \<forall>s\<in>set col. 0 \<le> s \<and> s < int (length l)"
  shows "\<exists>nbs. GetOccupiedNeighbours E nn l p = Some nbs"
proof -
  let ?col = "nn ! nat p"
  have "?col \<in> set nn" using assms(1,2) by simp
  then have inr: "\<forall>s\<in>set ?col. 0 \<le> s \<and> s < int (length l)" using assms(3) by blast
  have "\<exists>chk. those (map (\<lambda>s. map_option (\<lambda>v. v \<noteq> E) (lat_get l s)) col) = Some chk"
    if "\<forall>s\<in>set col. 0 \<le> s \<and> s < int (length l)" for col
    using that by (induction col) (auto simp: lat_get_def)
  from this [OF inr] show ?thesis
    using assms(1,2) by (auto simp: GetOccupiedNeighbours_def nn_col_def)
qed

lemma start_loop_result:
  "start_loop E nn l pool draws cmax c k = Some (pos, c', k') \<Longrightarrow> c \<le> cmax \<Longrightarrow>
     c' \<le> cmax \<and> c \<le> c' \<and> k' = Suc (k + (c' - c))
     \<and> lat_get pool (draws (k + (c' - c))) = Some pos"
proof (induction E nn l pool draws cmax c k rule: start_loop.induct)
  case (1 E nn l pool draws cmax countLoop k)
  from "1.prems"(1) obtain p nbs where p: "lat_get pool (draws k) = Some p"
    and nbs: "GetOccupiedNeighbours E nn l p = Some nbs"
    by (subst (asm) start_loop.simps) (auto split: option.splits)
  show ?case
  proof (cases "length nbs > 0 \<or> countLoop \<ge> cmax")
    case True
    with "1.prems" p nbs show ?thesis
      by (subst (asm) start_loop.simps) auto
  next
    case False
    then have rec: "start_loop E nn l pool draws cmax (Suc countLoop) (Suc k) = Some (pos, c', k')"
      using "1.prems"(1) p nbs by (subst (asm) start_loop.simps) auto
    from False have "Suc countLoop \<le> cmax" by simp
    from "1.IH" [OF p nbs False rec this]
    have *: "c' \<le> cmax" "Suc countLoop \<le> c'" "k' = Suc (Suc k + (c' - Suc countLoop))"
       "lat_get pool (draws (Suc k + (c' - Suc countLoop))) = Some pos" by auto
    have "Suc k + (c' - Suc countLoop) = k + (c' - countLoop)" using *(2) by simp
    with * show ?thesis by simp
  qed
qed

lemma start_loop_defined:
  assumes "\<forall>k. 0 \<le> draws k \<and> draws k < int (length pool)"
    and "\<forall>p\<in>set pool. 0 \<le> p \<and> p < int (length nn)"
    and "\<forall>col\<in>set nn. \<forall>s\<in>set col. 0 \<le> s \<and> s < int (length l)"
  shows "start_loop E nn l pool draws cmax c k \<noteq> None"
proof (induction "cmax - c" arbitrary: c k)
  case 0
  have "nat (draws k) < length pool" using assms(1) by (simp add: nat_less_iff)
  then have "pool ! nat (draws k) \<in> set pool" by simp
  then obtain p where p: "lat_get pool (draws k) = Some p" "p \<in> set pool"
    using assms(1) by (simp add: lat_get_def)
  then obtain nbs where "GetOccupiedNeighbours E nn l p = Some nbs"
    using GetOccupiedNeighbours_defined [of p nn l E] assms(2,3) by blast
  with p 0 show ?case by (subst start_loop.simps) simp
next
  case (Suc n)
  have "nat (draws k) < length pool" using assms(1) by (simp add: nat_less_iff)
  then have "pool ! nat (draws k) \<in> set pool" by simp
  then obtain p where p: "lat_get pool (draws k) = Some p" "p \<in> set pool"
    using assms(1) by (simp add: lat_get_def)
  then obtain nbs where nbs: "GetOccupiedNeighbours E nn l p = Some nbs"
    using GetOccupiedNeighbours_defined [of p nn l E] assms(2,3) by blast
  have "n = cmax - Suc c" using Suc(2) by simp
  from Suc(1) [OF this]
  have r: "start_loop E nn l pool draws cmax (Suc c) (Suc k) \<noteq> None" .
  show ?case using r by (subst start_loop.simps) (auto simp: p nbs)
qed

lemma start_loop_all_rejected:
  assumes "\<forall>k. \<exists>p. lat_get pool (draws k) = Some p \<and> GetOccupiedNeighbours E nn l p = Some []"
    and "c \<le> cmax"
  shows "\<exists>pos. start_loop E nn l pool draws cmax c k = Some (pos, cmax, Suc (k + (cmax - c)))"
  using assms(2)
proof (induction "cmax - c" arbitrary: c k)
  case 0
  obtain p where p: "lat_get pool (draws k) = Some p" "GetOccupiedNeighbours E nn l p = Some []"
    using assms(1) by blast
  with 0 show ?case by (subst start_loop.simps) auto
next
  case (Suc n)
  obtain p where p: "lat_get pool (draws k) = Some p" "GetOccupiedNeighbours E nn l p = Some []"
    using assms(1) by blast
  have n: "n = cmax - Suc c" and le: "Suc c \<le> cmax" using Suc(2) by simp_all
  from Suc(1) [OF n le, of "Suc k"] obtain pos where
    "start_loop E nn l pool draws cmax (Suc c) (Suc k)
       = Some (pos, cmax, Suc (Suc k + (cmax - Suc c)))"
    by blast
  moreover have "Suc k + (cmax - Suc c) = k + (cmax - c)" using le by simp
  ultimately show ?case using p le by (subst start_loop.simps) auto
qed

text \<open>
  The search as a loop, for any sentinel. Let every sample be an index into the
  pool, every pool entry a site, and every neighbour-table entry a site. Then the
  start-site search returns: it rejects \<open>c\<close> samples and draws \<open>c + 1\<close>, where \<open>c\<close>
  is at most \<open>countMax = min(max(N, 1e5), 1e8)\<close>; the site it ends on is the last
  sample; and if \<open>c\<close> has reached \<open>countMax\<close> the walk array is constant at that
  site and all boundary flags are 0.
\<close>

lemma start_loop_capped:
  assumes "\<forall>k. 0 \<le> draws k \<and> draws k < int (length pool)"
    and "\<forall>p\<in>set pool. 0 \<le> p \<and> p < int (length nn)"
    and "\<forall>col\<in>set nn. \<forall>s\<in>set col. 0 \<le> s \<and> s < int (length l)"
  shows "\<exists>pos c. start_loop E nn l pool draws (countMax N) 0 0 = Some (pos, c, Suc c)
           \<and> c \<le> countMax N
           \<and> countMax N = min (max N 100000) 100000000
           \<and> lat_get pool (draws c) = Some pos
           \<and> (c = countMax N \<longrightarrow>
                lattice_walk g N simLength E nn l fr lr pool draws choices
                  = Some (replicate simLength (i32 pos), replicate simLength 0, c))"
proof -
  from start_loop_defined [OF assms, of E "countMax N" 0 0] obtain pos c k
    where r: "start_loop E nn l pool draws (countMax N) 0 0 = Some (pos, c, k)"
    by (cases "start_loop E nn l pool draws (countMax N) 0 0") auto
  from start_loop_result [OF r] have *: "c \<le> countMax N" "k = Suc c"
    "lat_get pool (draws c) = Some pos" by auto
  have "lattice_walk g N simLength E nn l fr lr pool draws choices
          = Some (replicate simLength (i32 pos), replicate simLength 0, c)"
    if "c = countMax N"
    using r that by (simp add: lattice_walk_def)
  with r * show ?thesis by (simp add: countMax_def)
qed

text \<open>
  The search when the comparison with the sentinel works, as in the older
  \<open>ctrw.hpp\<close>, where \<open>N\<close> and \<open>EMPTY\<close> are of type \<open>int\<close> and \<open>EMPTY\<close> is \<open>-N - 1\<close>.
  On the \<open>3 \<times> 3\<close> square lattice with the single occupied site 0 the pool is
  \<open>[0]\<close>, site 0 has no occupied neighbour, every sample is rejected, and after
  100000 rejections the walk is stationary.
\<close>

lemma start_loop_capped_example:
  "start_pool 0 (- 10) [- 1, - 10, - 10, - 10, - 10, - 10, - 10, - 10, - 10] = Some [0]
   \<and> lattice_walk 3 9 3 (- 10) (BoundariesSquare 3 9)
        [- 1, - 10, - 10, - 10, - 10, - 10, - 10, - 10, - 10] [] [] [0] (\<lambda>k. 0) (\<lambda>k. 0)
       = Some ([0, 0, 0], [0, 0, 0], 100000)"
proof -
  let ?nn = "BoundariesSquare 3 9"
  let ?l = "[- 1, - 10, - 10, - 10, - 10, - 10, - 10, - 10, - 10 :: int]"
  have nn: "?nn = [[1, 2, 3, 6], [2, 0, 4, 7], [0, 1, 5, 8], [4, 5, 6, 0], [5, 3, 7, 1],
                   [3, 4, 8, 2], [7, 8, 0, 3], [8, 6, 1, 4], [6, 7, 2, 5]]"
    by code_simp
  have pool: "start_pool 0 (- 10) ?l = Some [0]" by code_simp
  have cm: "countMax 9 = 100000" by (simp add: countMax_def)
  have a1: "\<forall>k. 0 \<le> (\<lambda>k::nat. 0::int) k \<and> (\<lambda>k::nat. 0::int) k < int (length [0::int])"
    by simp
  have a2: "\<forall>p\<in>set [0::int]. 0 \<le> p \<and> p < int (length ?nn)" by (simp add: nn)
  have a3: "\<forall>col\<in>set ?nn. \<forall>s\<in>set col. 0 \<le> s \<and> s < int (length ?l)" by (simp add: nn)
  from start_loop_capped [OF a1 a2 a3, of "- 10" 9 3 3 "[]" "[]" "\<lambda>k. 0"]
  obtain pos c where
    r: "start_loop (- 10) ?nn ?l [0] (\<lambda>k. 0) (countMax 9) 0 0 = Some (pos, c, Suc c)"
    and p: "lat_get [0] 0 = Some pos"
    and w: "c = countMax 9 \<longrightarrow>
            lattice_walk 3 9 3 (- 10) ?nn ?l [] [] [0] (\<lambda>k. 0) (\<lambda>k. 0)
              = Some (replicate 3 (i32 pos), replicate 3 0, c)"
    by auto
  have g: "GetOccupiedNeighbours (- 10) ?nn ?l 0 = Some []"
    by (simp add: nn GetOccupiedNeighbours_def nn_col_def lat_get_def)
  have "\<forall>k::nat. \<exists>p. lat_get [0] ((\<lambda>k. 0) k) = Some p
           \<and> GetOccupiedNeighbours (- 10) ?nn ?l p = Some []"
    using g by (simp add: lat_get_def)
  from start_loop_all_rejected [OF this, of 0 "countMax 9" 0]
  obtain pos' where "start_loop (- 10) ?nn ?l [0] (\<lambda>k. 0) (countMax 9) 0 0
      = Some (pos', countMax 9, Suc (countMax 9))" by auto
  with r have c: "c = countMax 9" by simp
  from p have "pos = 0" by (simp add: lat_get_def)
  with w c cm have "lattice_walk 3 9 3 (- 10) ?nn ?l [] [] [0] (\<lambda>k. 0) (\<lambda>k. 0)
       = Some ([0, 0, 0], [0, 0, 0], 100000)"
    by (simp add: i32_def numeral_3_eq_3)
  with pool show ?thesis by simp
qed

text \<open>
  With the sentinel as \<open>Initialize\<close> computes it, the element-wise test of
  \<open>GetOccupiedNeighbours\<close> never finds an empty neighbour: on the \<open>2 \<times> 2\<close> lattice
  with the single occupied site 0 the four neighbours of site 0 all count as
  occupied.
\<close>

lemma GetOccupiedNeighbours_square2_example:
  "GetOccupiedNeighbours (EMPTY 4) (BoundariesSquare 2 4) [- 1, - 5, - 5, - 5] 0
     = Some [1, 1, 2, 2]"
  by code_simp


section \<open>Rounding to double precision\<close>

lemma pow2_powi: "pow2 e = 2 powi e"
  by (simp add: pow2_def power_int_def inverse_eq_divide power_one_over)

lemma pow2_pos: "0 < pow2 e"
  by (simp add: pow2_powi)

lemma pow2_add: "pow2 (a + b) = pow2 a * pow2 b"
  by (simp add: pow2_powi power_int_add)

lemma pow2_mono: "a \<le> b \<Longrightarrow> pow2 a \<le> pow2 b"
  by (simp add: pow2_powi power_int_increasing)

lemma pow2_strict_mono: "a < b \<Longrightarrow> pow2 a < pow2 b"
  by (simp add: pow2_powi power_int_strict_increasing)

lemma pow2_less_cancel: "pow2 a < pow2 b \<Longrightarrow> a < b"
  using pow2_mono [of b a] by (cases "a < b") auto

lemma pow2_nat: "0 \<le> e \<Longrightarrow> pow2 e = of_int (2 ^ nat e)"
  by (simp add: pow2_def)

lemma pow2_neg: "pow2 (- e) = 1 / pow2 e"
  by (simp add: pow2_powi power_int_minus inverse_eq_divide)

lemma ilog2_eqI:
  assumes "pow2 e \<le> x" "x < pow2 (e + 1)"
  shows "ilog2 x = e"
proof -
  have x0: "0 < x" using assms(1) pow2_pos [of e] by simp
  show ?thesis
  proof (cases "1 \<le> x")
    case True
    have "pow2 0 < pow2 (e + 1)" using True assms(2) by (simp add: pow2_def)
    then have e0: "0 \<le> e" using pow2_less_cancel [of 0 "e + 1"] by simp
    let ?n = "\<lfloor>x\<rfloor>"
    have "of_int (2 ^ nat e) \<le> x" using assms(1) e0 by (simp add: pow2_nat)
    then have lo: "2 ^ nat e \<le> ?n" by (simp add: le_floor_iff)
    have "x < of_int (2 ^ nat (e + 1))" using assms(2) e0 by (simp add: pow2_nat)
    then have hi: "?n < 2 ^ nat (e + 1)" by (simp add: floor_less_iff)
    have "bitlen ?n \<le> e + 1" using hi e0 by (simp add: bitlen_le_iff_power)
    moreover have "nat (e + 1) - 1 = nat e" using e0 by simp
    then have "e + 1 \<le> bitlen ?n" using lo e0 by (simp add: bitlen_ge_iff_power)
    ultimately show ?thesis using True by (simp add: ilog2_def)
  next
    case False
    then have x1: "x < 1" by simp
    have "pow2 e < pow2 0" using x1 assms(1) by (simp add: pow2_def)
    then have e0: "e < 0" using pow2_less_cancel [of e 0] by simp
    let ?n = "\<lceil>1 / x\<rceil> - 1"
    have p1: "pow2 e = 1 / of_int (2 ^ nat (- e))"
      using pow2_neg [of "- e"] e0 by (simp add: pow2_nat)
    have p2: "pow2 (e + 1) = 1 / of_int (2 ^ nat (- e - 1))"
      using pow2_neg [of "- e - 1"] e0 by (simp add: pow2_nat add.commute)
    have "1 / x \<le> of_int (2 ^ nat (- e))"
      using assms(1) x0 unfolding p1 by (simp add: field_simps)
    then have "\<lceil>1 / x\<rceil> \<le> 2 ^ nat (- e)" by (simp add: ceiling_le_iff)
    then have hi: "?n < 2 ^ nat (- e)" by simp
    have "of_int (2 ^ nat (- e - 1)) < 1 / x"
      using assms(2) x0 unfolding p2 by (simp add: field_simps)
    then have "2 ^ nat (- e - 1) < \<lceil>1 / x\<rceil>" by (simp add: less_ceiling_iff)
    then have lo: "2 ^ nat (- e - 1) \<le> ?n" by simp
    have "bitlen ?n \<le> - e" using hi e0 by (simp add: bitlen_le_iff_power)
    moreover have "nat (- e) - 1 = nat (- e - 1)" using e0 by simp
    then have "- e \<le> bitlen ?n"
      using lo e0 by (simp add: bitlen_ge_iff_power)
    ultimately show ?thesis using False by (simp add: ilog2_def)
  qed
qed

lemma ilog2_bounds:
  assumes "0 < x"
  shows "pow2 (ilog2 x) \<le> x" and "x < pow2 (ilog2 x + 1)"
proof -
  have "pow2 (ilog2 x) \<le> x \<and> x < pow2 (ilog2 x + 1)"
  proof (cases "1 \<le> x")
    case True
    let ?n = "\<lfloor>x\<rfloor>"
    have n: "0 < ?n" using True by simp
    from bitlen_bounds [OF n] have b: "2 ^ nat (bitlen ?n - 1) \<le> ?n" "?n < 2 ^ nat (bitlen ?n)"
      by auto
    have b1: "1 \<le> bitlen ?n" using n bitlen_eq_zero_iff [of ?n] bitlen_nonneg [of ?n] by linarith
    have e: "ilog2 x = bitlen ?n - 1" using True by (simp add: ilog2_def)
    have "of_int (2 ^ nat (bitlen ?n - 1)) \<le> (of_int ?n :: rat)"
      using b(1) of_int_le_iff by blast
    also have "\<dots> \<le> x" by simp
    finally have lo: "pow2 (ilog2 x) \<le> x" using b1 by (simp add: e pow2_nat)
    have "?n + 1 \<le> 2 ^ nat (bitlen ?n)" using b(2) by simp
    then have "(of_int (?n + 1) :: rat) \<le> of_int (2 ^ nat (bitlen ?n))"
      using of_int_le_iff by blast
    moreover have "x < of_int (?n + 1)" by linarith
    ultimately have "x < of_int (2 ^ nat (bitlen ?n))" by linarith
    then have hi: "x < pow2 (ilog2 x + 1)" using b1 by (simp add: e pow2_nat)
    from lo hi show ?thesis by simp
  next
    case False
    then have x1: "x < 1" by simp
    let ?c = "\<lceil>1 / x\<rceil>"
    let ?n = "?c - 1"
    have y1: "1 < 1 / x" using assms x1 by simp
    then have "1 < ?c" by (simp add: less_ceiling_iff)
    then have n: "0 < ?n" by simp
    from bitlen_bounds [OF n] have b: "2 ^ nat (bitlen ?n - 1) \<le> ?n" "?n < 2 ^ nat (bitlen ?n)"
      by auto
    have b1: "1 \<le> bitlen ?n" using n bitlen_eq_zero_iff [of ?n] bitlen_nonneg [of ?n] by linarith
    have e: "ilog2 x = - bitlen ?n" using False by (simp add: ilog2_def)
    have p1: "pow2 (- bitlen ?n) = 1 / of_int (2 ^ nat (bitlen ?n))"
      using pow2_neg [of "bitlen ?n"] b1 by (simp add: pow2_nat)
    have p2: "pow2 (- bitlen ?n + 1) = 1 / of_int (2 ^ nat (bitlen ?n - 1))"
      using pow2_neg [of "bitlen ?n - 1"] b1 by (simp add: pow2_nat)
    have "?c \<le> 2 ^ nat (bitlen ?n)" using b(2) by simp
    then have "(of_int ?c :: rat) \<le> of_int (2 ^ nat (bitlen ?n))"
      using of_int_le_iff by blast
    moreover have "1 / x \<le> of_int ?c" by simp
    ultimately have "1 / x \<le> of_int (2 ^ nat (bitlen ?n))" by linarith
    then have lo: "pow2 (ilog2 x) \<le> x"
      using assms unfolding e p1 by (simp add: field_simps)
    have "(of_int (2 ^ nat (bitlen ?n - 1)) :: rat) \<le> of_int ?n"
      using b(1) of_int_le_iff by blast
    moreover have "of_int ?n < 1 / x" by linarith
    ultimately have "of_int (2 ^ nat (bitlen ?n - 1)) < 1 / x" by linarith
    then have hi: "x < pow2 (ilog2 x + 1)"
      using assms unfolding e p2 by (simp add: field_simps)
    from lo hi show ?thesis by simp
  qed
  then show "pow2 (ilog2 x) \<le> x" and "x < pow2 (ilog2 x + 1)" by simp_all
qed

lemma round_even_le: "m \<le> of_int n \<Longrightarrow> round_even m \<le> n"
proof -
  assume a: "m \<le> of_int n"
  have f: "\<lfloor>m\<rfloor> \<le> n" using a by (simp add: floor_le_iff)
  show ?thesis
  proof (cases "m = of_int n")
    case True
    then show ?thesis by (simp add: round_even_def)
  next
    case False
    then have "m < of_int n" using a by simp
    then have "\<lfloor>m\<rfloor> < n" by (simp add: floor_less_iff)
    then show ?thesis by (simp add: round_even_def Let_def)
  qed
qed

lemma round_even_ge: "of_int n \<le> m \<Longrightarrow> n \<le> round_even m"
proof -
  assume "of_int n \<le> m"
  then have "n \<le> \<lfloor>m\<rfloor>" by (simp add: le_floor_iff)
  then show ?thesis by (simp add: round_even_def Let_def)
qed

lemma round_even_eqI: "\<bar>m - of_int n\<bar> < 1 / 2 \<Longrightarrow> round_even m = n"
proof -
  assume a: "\<bar>m - of_int n\<bar> < 1 / 2"
  show ?thesis
  proof (cases "of_int n \<le> m")
    case True
    then have "\<lfloor>m\<rfloor> = n" using a by (intro floor_unique) linarith+
    then show ?thesis using a True by (simp add: round_even_def Let_def)
  next
    case False
    then have "\<lfloor>m\<rfloor> = n - 1" using a by (intro floor_unique) (simp, linarith)+
    then show ?thesis using a False by (simp add: round_even_def Let_def)
  qed
qed

lemma fl_pos:
  "0 < x \<Longrightarrow> fl x = of_int (round_even (x / pow2 (ilog2 x - 52))) * pow2 (ilog2 x - 52)"
  by (simp add: fl_def Let_def)

lemma pow2_scale: "pow2 a / pow2 b = pow2 (a - b)"
  using pow2_add [of "a - b" b] pow2_pos [of b] by (simp add: field_simps)

lemma pow2_52: "pow2 52 = of_int (2 ^ 52)" and pow2_53: "pow2 53 = of_int (2 ^ 53)"
  by (simp_all add: pow2_def)

lemma fl_nonneg: "0 \<le> x \<Longrightarrow> 0 \<le> fl x"
proof (cases "x = 0")
  case True
  then show ?thesis by (simp add: fl_def)
next
  case False
  assume "0 \<le> x"
  with False have x: "0 < x" by simp
  have "of_int 0 \<le> x / pow2 (ilog2 x - 52)"
    using x pow2_pos [of "ilog2 x - 52"] by (simp add: zero_le_divide_iff)
  from round_even_ge [OF this] show ?thesis
    using pow2_pos [of "ilog2 x - 52"] by (simp add: fl_pos [OF x])
qed


lemma int_times_pow2:
  assumes "b \<le> k"
  shows "of_int m * pow2 k / pow2 b = of_int (m * 2 ^ nat (k - b))"
proof -
  have "of_int m * pow2 k / pow2 b = of_int m * (pow2 k / pow2 b)" by simp
  also have "\<dots> = of_int m * pow2 (k - b)" by (simp add: pow2_scale)
  also have "\<dots> = of_int (m * 2 ^ nat (k - b))" using assms by (simp add: pow2_nat)
  finally show ?thesis .
qed

lemma fl_le:
  assumes "0 < x" "x \<le> of_int m * pow2 k" "m < 2 ^ 53"
  shows "fl x \<le> of_int m * pow2 k"
proof -
  let ?e = "ilog2 x"
  let ?q = "pow2 (?e - 52)"
  let ?y = "of_int m * pow2 k"
  have q: "0 < ?q" by (rule pow2_pos)
  have lo: "pow2 ?e \<le> x" and hi: "x < pow2 (?e + 1)" using ilog2_bounds [OF assms(1)] by auto
  show ?thesis
  proof (cases "pow2 (?e + 1) \<le> ?y")
    case True
    have "x / ?q < pow2 (?e + 1) / ?q" using hi q by (simp add: divide_strict_right_mono)
    also have "\<dots> = of_int (2 ^ 53)" by (simp add: pow2_scale pow2_53)
    finally have "round_even (x / ?q) \<le> 2 ^ 53" by (intro round_even_le) simp
    then have "(of_int (round_even (x / ?q)) :: rat) \<le> of_int (2 ^ 53)"
      using of_int_le_iff by blast
    then have "of_int (round_even (x / ?q)) * ?q \<le> of_int (2 ^ 53) * ?q"
      using q by (intro mult_right_mono) simp_all
    also have "\<dots> = pow2 53 * ?q" by (simp add: pow2_53)
    also have "\<dots> = pow2 (?e + 1)" by (simp add: pow2_add [symmetric] add.commute)
    finally show ?thesis using True by (simp add: fl_pos [OF assms(1)])
  next
    case False
    have m0: "0 < m"
    proof (rule ccontr)
      assume "\<not> 0 < m"
      then have "of_int m * pow2 k \<le> 0" using pow2_pos [of k] by (simp add: mult_le_0_iff)
      with assms(1,2) show False by simp
    qed
    have "pow2 ?e \<le> of_int m * pow2 k" using lo assms(2) by simp
    also have "\<dots> < of_int (2 ^ 53) * pow2 k"
      using assms(3) pow2_pos [of k] by (intro mult_strict_right_mono) simp_all
    also have "\<dots> = pow2 (k + 53)" by (simp add: pow2_add pow2_53)
    finally have "?e < k + 53" by (rule pow2_less_cancel)
    then have kb: "?e - 52 \<le> k" by simp
    have "x / ?q \<le> ?y / ?q" using assms(2) q by (simp add: divide_right_mono)
    also have "\<dots> = of_int (m * 2 ^ nat (k - (?e - 52)))" by (rule int_times_pow2 [OF kb])
    finally have "round_even (x / ?q) \<le> m * 2 ^ nat (k - (?e - 52))" by (rule round_even_le)
    then have "(of_int (round_even (x / ?q)) :: rat) \<le> of_int (m * 2 ^ nat (k - (?e - 52)))"
      using of_int_le_iff by blast
    then have "of_int (round_even (x / ?q)) * ?q \<le> of_int (m * 2 ^ nat (k - (?e - 52))) * ?q"
      using q by (intro mult_right_mono) simp_all
    also have "\<dots> = (?y / ?q) * ?q" by (simp only: int_times_pow2 [OF kb])
    also have "\<dots> = ?y" using q by simp
    finally show ?thesis by (simp add: fl_pos [OF assms(1)])
  qed
qed

lemma fl_ge:
  assumes "0 < x" "of_int m * pow2 k \<le> x" "m < 2 ^ 53"
  shows "of_int m * pow2 k \<le> fl x"
proof -
  let ?e = "ilog2 x"
  let ?q = "pow2 (?e - 52)"
  let ?y = "of_int m * pow2 k"
  have q: "0 < ?q" by (rule pow2_pos)
  have lo: "pow2 ?e \<le> x" and hi: "x < pow2 (?e + 1)" using ilog2_bounds [OF assms(1)] by auto
  show ?thesis
  proof (cases "?y \<le> pow2 ?e")
    case True
    have "pow2 ?e / ?q \<le> x / ?q" using lo q by (simp add: divide_right_mono)
    moreover have "pow2 ?e / ?q = of_int (2 ^ 52)" by (simp add: pow2_scale pow2_52)
    ultimately have "2 ^ 52 \<le> round_even (x / ?q)" by (intro round_even_ge) simp
    then have "(of_int (2 ^ 52) :: rat) \<le> of_int (round_even (x / ?q))"
      using of_int_le_iff by blast
    then have "of_int (2 ^ 52) * ?q \<le> of_int (round_even (x / ?q)) * ?q"
      using q by (intro mult_right_mono) simp_all
    moreover have "of_int (2 ^ 52) * ?q = pow2 ?e"
      using pow2_add [of 52 "?e - 52"] by (simp add: pow2_52)
    ultimately show ?thesis using True by (simp add: fl_pos [OF assms(1)])
  next
    case False
    then have "pow2 ?e < of_int m * pow2 k" by simp
    moreover have "of_int m * pow2 k \<le> of_int (2 ^ 53) * pow2 k"
      using assms(3) pow2_pos [of k] by (intro mult_right_mono) simp_all
    moreover have "of_int (2 ^ 53) * pow2 k = pow2 (k + 53)" by (simp add: pow2_add pow2_53)
    ultimately have "pow2 ?e < pow2 (k + 53)" by simp
    then have "?e < k + 53" by (rule pow2_less_cancel)
    then have kb: "?e - 52 \<le> k" by simp
    have "?y / ?q \<le> x / ?q" using assms(2) q by (simp add: divide_right_mono)
    moreover have "?y / ?q = of_int (m * 2 ^ nat (k - (?e - 52)))" by (rule int_times_pow2 [OF kb])
    ultimately have "m * 2 ^ nat (k - (?e - 52)) \<le> round_even (x / ?q)"
      by (intro round_even_ge) simp
    then have "(of_int (m * 2 ^ nat (k - (?e - 52))) :: rat) \<le> of_int (round_even (x / ?q))"
      using of_int_le_iff by blast
    then have "of_int (m * 2 ^ nat (k - (?e - 52))) * ?q \<le> of_int (round_even (x / ?q)) * ?q"
      using q by (intro mult_right_mono) simp_all
    moreover have "of_int (m * 2 ^ nat (k - (?e - 52))) * ?q = (?y / ?q) * ?q"
      by (simp only: int_times_pow2 [OF kb])
    moreover have "(?y / ?q) * ?q = ?y" using q by simp
    ultimately show ?thesis by (simp add: fl_pos [OF assms(1)])
  qed
qed

lemma fl_eqI:
  assumes "pow2 (k + 52) \<le> x" "x < pow2 (k + 53)" "\<bar>x / pow2 k - of_int m\<bar> < 1 / 2"
  shows "fl x = of_int m * pow2 k"
proof -
  have x: "0 < x" using assms(1) pow2_pos [of "k + 52"] by simp
  have "ilog2 x = k + 52" using assms(1,2) by (intro ilog2_eqI) (simp_all add: add.commute)
  then show ?thesis using round_even_eqI [OF assms(3)] by (simp add: fl_pos [OF x])
qed

lemma fl_int:
  assumes "0 \<le> n" "n < 2 ^ 53"
  shows "fl (of_int n) = of_int n"
proof (cases "n = 0")
  case True
  then show ?thesis by (simp add: fl_def)
next
  case False
  then have x: "0 < (of_int n :: rat)" using assms(1) by simp
  have p: "pow2 0 = 1" by (simp add: pow2_def)
  have "fl (of_int n) \<le> of_int n * pow2 0" using x assms(2) by (intro fl_le) (simp_all add: p)
  moreover have "of_int n * pow2 0 \<le> fl (of_int n)"
    using x assms(2) by (intro fl_ge) (simp_all add: p)
  ultimately show ?thesis by (simp add: p)
qed

section \<open>Time-average MSD\<close>

lemma those_map_Some:
  "(\<And>x. x \<in> set xs \<Longrightarrow> f x = Some (g x)) \<Longrightarrow> those (map f xs) = Some (map g xs)"
  by (induction xs) auto

lemma u32_id: "0 \<le> x \<Longrightarrow> x < 2 ^ 32 \<Longrightarrow> u32 x = x"
  by (simp add: u32_def)

lemma dadd_NonFinite [simp]: "dadd NonFinite b = NonFinite" "dadd a NonFinite = NonFinite"
  by (simp_all add: dadd_def split: dval.splits)

lemma dsub_NonFinite [simp]: "dsub NonFinite b = NonFinite" "dsub a NonFinite = NonFinite"
  by (simp_all add: dsub_def split: dval.splits)

lemma ddiv_NonFinite [simp]: "ddiv NonFinite y = NonFinite" "ddiv a 0 = NonFinite"
  by (simp_all add: ddiv_def split: dval.splits)

lemma foldl_absorb: "(\<And>x. f a x = a) \<Longrightarrow> foldl f a xs = a"
  by (induction xs) simp_all

lemma foldl_absorb_mem:
  assumes "\<And>x. f a x = a" "\<And>r. f r y = a" "y \<in> set xs"
  shows "foldl f r xs = a"
  using assms(3)
proof (induction xs arbitrary: r)
  case Nil
  then show ?case by simp
next
  case (Cons x xs)
  show ?case
  proof (cases "x = y")
    case True
    then show ?thesis using assms(1,2) by (simp add: foldl_absorb)
  next
    case False
    then have "y \<in> set xs" using Cons.prems by simp
    from Cons.IH [OF this] show ?thesis by simp
  qed
qed

lemma foldl_dadd_mem_NonFinite: "NonFinite \<in> set vs \<Longrightarrow> foldl dadd a vs = NonFinite"
  by (rule foldl_absorb_mem [where y = NonFinite]) simp_all

lemma mean_robust_NonFinite:
  assumes "NonFinite \<in> set vs"
  shows "mean_robust vs = NonFinite"
proof -
  from assms obtain i where i: "i < length vs" "vs ! i = NonFinite"
    by (auto simp: in_set_conv_nth)
  then have "(NonFinite, i) \<in> set (zip vs [0..<length vs])"
    by (auto simp: set_zip intro!: exI [of _ i])
  then show ?thesis
    unfolding mean_robust_def
    by (rule foldl_absorb_mem [rotated 2]) (simp_all add: case_prod_beta)
qed

lemma dmean_NonFinite: "NonFinite \<in> set vs \<Longrightarrow> dmean vs = NonFinite"
  by (simp add: dmean_def Let_def foldl_dadd_mem_NonFinite mean_robust_NonFinite is_nonfinite_def)

lemma tamsd_sum_eq:
  "(\<And>i. i \<in> set js \<Longrightarrow> i + delta < length walk) \<Longrightarrow>
   tamsd_sum walk delta js integral =
     Some (foldl dadd integral
             (map (\<lambda>i. dadd (dmul (dsub (Fin (fst (walk ! (i + delta)))) (Fin (fst (walk ! i))))
                                 (dsub (Fin (fst (walk ! (i + delta)))) (Fin (fst (walk ! i)))))
                           (dmul (dsub (Fin (snd (walk ! (i + delta)))) (Fin (snd (walk ! i))))
                                 (dsub (Fin (snd (walk ! (i + delta)))) (Fin (snd (walk ! i))))))
                  js))"
proof (induction js arbitrary: integral)
  case Nil
  then show ?case by simp
next
  case (Cons i js)
  have "i + delta < length walk" using Cons.prems by simp
  then have c: "col_get walk (i + delta) = Some (walk ! (i + delta))"
    "col_get walk i = Some (walk ! i)"
    by (simp_all add: col_get_def)
  have "\<And>j. j \<in> set js \<Longrightarrow> j + delta < length walk" using Cons.prems by simp
  from Cons.IH [OF this] show ?case by (simp add: c SquaredDist_def Let_def)
qed

lemma TAMSD_double:
  assumes "delta < t" "t \<le> length walk" "t < 2 ^ 32"
  shows "TAMSD walk t delta =
     Some (ddiv (foldl dadd (Fin 0)
             (map (\<lambda>i. dadd (dmul (dsub (Fin (fst (walk ! (i + delta)))) (Fin (fst (walk ! i))))
                                 (dsub (Fin (fst (walk ! (i + delta)))) (Fin (fst (walk ! i)))))
                           (dmul (dsub (Fin (snd (walk ! (i + delta)))) (Fin (snd (walk ! i))))
                                 (dsub (Fin (snd (walk ! (i + delta)))) (Fin (snd (walk ! i))))))
                  [0..<t - delta]))
            (of_nat (t - delta)))"
proof -
  have "int t - int delta < 2 ^ 32" using assms by simp
  then have d: "nat (u32 (int t - int delta)) = t - delta"
    using assms(1) by (subst u32_id) auto
  have "\<And>i. i \<in> set [0..<t - delta] \<Longrightarrow> i + delta < length walk" using assms by auto
  from tamsd_sum_eq [OF this, of "[0..<t - delta]" "Fin 0"] show ?thesis
    by (simp add: TAMSD_def d Let_def)
qed

lemma TAMSD_degenerate: "TAMSD walk t t = Some NonFinite"
  by (simp add: TAMSD_def u32_def)

lemma TAMSD_defined:
  assumes "delta \<le> t" "t \<le> length walk" "t < 2 ^ 32"
  shows "\<exists>v. TAMSD walk t delta = Some v"
proof (cases "delta = t")
  case True
  then show ?thesis by (simp add: TAMSD_degenerate)
next
  case False
  then have "delta < t" using assms by simp
  from TAMSD_double [OF this assms(2,3)] show ?thesis by blast
qed

lemma walk_entry_defined:
  assumes "length walk = walkLength" "1 \<le> j" "j < walkLength" "walkLength < 2 ^ 32"
  shows "\<exists>ea ta. walk_entry walk walkLength j = Some (ea, ta, the (TAMSD walk j 1))"
proof -
  obtain ta where ta: "TAMSD walk walkLength j = Some ta"
    using TAMSD_defined [of j walkLength walk] assms by auto
  obtain eata where eata: "TAMSD walk j 1 = Some eata"
    using TAMSD_defined [of 1 j walk] assms by auto
  have c: "col_get walk 0 = Some (walk ! 0)" "col_get walk j = Some (walk ! j)"
    using assms by (simp_all add: col_get_def)
  show ?thesis
    by (simp add: walk_entry_def c ta eata [unfolded One_nat_def])
qed

lemma walk_columns_defined:
  assumes "length walk = walkLength" "2 \<le> walkLength" "walkLength < 2 ^ 32"
  shows "\<exists>ea ta eata. walk_columns walk walkLength = Some (ea, ta, eata)
           \<and> length eata = walkLength - 1 \<and> eata ! 0 = NonFinite"
proof -
  let ?g = "\<lambda>j. the (walk_entry walk walkLength j)"
  have g: "walk_entry walk walkLength j = Some (?g j)
           \<and> snd (snd (?g j)) = the (TAMSD walk j 1)"
    if "j \<in> set [1..<walkLength]" for j
  proof -
    have "1 \<le> j" "j < walkLength" using that by auto
    from walk_entry_defined [OF assms(1) this assms(3)] show ?thesis by auto
  qed
  then have t: "those (map (walk_entry walk walkLength) [1..<walkLength])
             = Some (map ?g [1..<walkLength])"
    by (intro those_map_Some) simp
  have one: "1 \<in> set [1..<walkLength]" using assms(2) by simp
  have "[1..<walkLength] ! 0 = 1" using assms(2) by (simp add: nth_upt)
  then have "map (snd \<circ> snd) (map ?g [1..<walkLength]) ! 0 = snd (snd (?g 1))"
    using assms(2) by (simp add: nth_map)
  also have "\<dots> = the (TAMSD walk 1 1)"
    using g [OF one] by simp
  also have "\<dots> = NonFinite" by (simp add: TAMSD_degenerate)
  finally show ?thesis by (simp add: walk_columns_def t [unfolded One_nat_def])
qed

lemma parallel_columns_defined:
  assumes "\<forall>w\<in>set walksCoords. length w = walkLength" "2 \<le> walkLength" "walkLength < 2 ^ 32"
  shows "\<exists>cols. parallel_columns walksCoords walkLength = Some cols
           \<and> length cols = length walksCoords
           \<and> (\<forall>c\<in>set cols. snd (snd c) ! 0 = NonFinite)"
proof -
  let ?g = "\<lambda>w. the (walk_columns w walkLength)"
  have g: "walk_columns w walkLength = Some (?g w) \<and> snd (snd (?g w)) ! 0 = NonFinite"
    if "w \<in> set walksCoords" for w
  proof -
    have "length w = walkLength" using assms(1) that by blast
    from walk_columns_defined [OF this assms(2,3)] show ?thesis by auto
  qed
  then have "parallel_columns walksCoords walkLength = Some (map ?g walksCoords)"
    unfolding parallel_columns_def by (intro those_map_Some) simp
  moreover have "\<forall>c\<in>set (map ?g walksCoords). snd (snd c) ! 0 = NonFinite"
    using g by simp
  ultimately show ?thesis by simp
qed

lemma zero_nonfinite_finite: "v \<in> set (zero_nonfinite xs) \<Longrightarrow> \<not> is_nonfinite v"
  by (auto simp: zero_nonfinite_def is_nonfinite_def)

lemma AnalyseWalks_degenerate_row:
  assumes "walksCoords \<noteq> []" "\<forall>w\<in>set walksCoords. length w = walkLength"
    "2 \<le> walkLength" "walkLength < 2 ^ 32"
  shows "\<exists>A. AnalyseWalks walksCoords walkLength = Some A
           \<and> length (A ! 1) = walkLength - 1
           \<and> A ! 1 ! 0 = Fin 0
           \<and> (\<forall>v\<in>set (A ! 1). \<not> is_nonfinite v)"
proof -
  from parallel_columns_defined [OF assms(2-4)] obtain cols where
    cols: "parallel_columns walksCoords walkLength = Some cols"
      "length cols = length walksCoords" "\<forall>c\<in>set cols. snd (snd c) ! 0 = NonFinite"
    by blast
  let ?rows = "walkLength - 1"
  let ?eata = "zero_nonfinite (row_means ?rows (map (snd \<circ> snd) cols))"
  have ne: "cols \<noteq> []" using cols(2) assms(1) by auto
  then obtain c where c: "c \<in> set cols" by (cases cols) auto
  have "NonFinite \<in> set (map (\<lambda>c. c ! 0) (map (snd \<circ> snd) cols))"
    using c cols(3) by force
  then have "dmean (map (\<lambda>c. c ! 0) (map (snd \<circ> snd) cols)) = NonFinite"
    by (rule dmean_NonFinite)
  moreover have pos: "0 < ?rows" using assms(3) by simp
  ultimately have "row_means ?rows (map (snd \<circ> snd) cols) ! 0 = NonFinite"
    by (simp add: row_means_def)
  moreover have len: "length (row_means ?rows (map (snd \<circ> snd) cols)) = ?rows"
    by (simp add: row_means_def)
  ultimately have z: "?eata ! 0 = Fin 0"
    using pos by (simp add: zero_nonfinite_def is_nonfinite_def)
  have l: "length ?eata = ?rows" using len by (simp add: zero_nonfinite_def)
  have f: "\<forall>v\<in>set ?eata. \<not> is_nonfinite v" using zero_nonfinite_finite by blast
  have "\<exists>x y T. AnalyseWalks walksCoords walkLength = Some (x # ?eata # y # T)"
    using assms(1,3) by (simp add: AnalyseWalks_def cols(1) Let_def)
  with z l f show ?thesis by auto
qed

text \<open>Rounding of integers, of powers of two and of small quotients.\<close>

lemma round_even_neg: "round_even (- m) = - round_even m"
proof (cases "m = of_int \<lfloor>m\<rfloor>")
  case True
  then obtain n where m: "m = of_int n" ..
  show ?thesis unfolding m by (simp add: round_even_def flip: of_int_minus)
next
  case False
  define f where "f = \<lfloor>m\<rfloor>"
  define d where "d = m - of_int f"
  have d: "0 < d" "d < 1"
  proof -
    have "of_int f \<le> m" "m < of_int f + 1" unfolding f_def by linarith+
    moreover have "m \<noteq> of_int f" using False by (simp add: f_def)
    ultimately show "0 < d" "d < 1" by (simp_all add: d_def)
  qed
  have fl: "\<lfloor>- m\<rfloor> = - f - 1"
  proof (rule floor_unique)
    show "of_int (- f - 1) \<le> - m" using d by (simp add: d_def)
    show "- m < of_int (- f - 1) + 1" using d by (simp add: d_def)
  qed
  have d': "- m - of_int (- f - 1) = 1 - d" by (simp add: d_def)
  have ev: "even (- f - 1) \<longleftrightarrow> odd f" by simp
  have "round_even (- m) =
          (if 1 - d < 1 / 2 then - f - 1 else if 1 / 2 < 1 - d then - f
           else if odd f then - f - 1 else - f)"
    unfolding round_even_def Let_def fl d' ev by simp
  moreover have "round_even m =
          (if d < 1 / 2 then f else if 1 / 2 < d then f + 1
           else if even f then f else f + 1)"
    unfolding round_even_def Let_def f_def [symmetric] d_def [symmetric] ..
  ultimately show ?thesis by (auto simp: field_simps)
qed

lemma fl_neg: "fl (- x) = - fl x"
  by (simp add: fl_def Let_def round_even_neg)

lemma fl_int_abs:
  assumes "\<bar>n\<bar> < 2 ^ 53"
  shows "fl (of_int n) = of_int n"
proof (cases "0 \<le> n")
  case True
  then show ?thesis using assms by (intro fl_int) simp_all
next
  case False
  then have "fl (of_int (- n)) = of_int (- n)" using assms by (intro fl_int) simp_all
  then show ?thesis using fl_neg [of "of_int n"] by simp
qed

lemma pow2_0: "pow2 0 = 1"
  by (simp add: pow2_def)

lemma dbl_normal:
  assumes "pow2 (- 1022) \<le> \<bar>x\<bar>" "\<bar>fl x\<bar> < pow2 1024"
  shows "dbl x = Fin (fl x)"
proof -
  have x0: "0 < \<bar>x\<bar>" using assms(1) pow2_pos [of "- 1022"] by linarith
  then have xn: "x \<noteq> 0" by simp
  have "pow2 (- 1022) < pow2 (ilog2 \<bar>x\<bar> + 1)"
    using assms(1) ilog2_bounds(2) [OF x0] by linarith
  then have lo: "\<not> ilog2 \<bar>x\<bar> < - 1022" using pow2_less_cancel by fastforce
  have hi: "\<not> 1024 \<le> ilog2 \<bar>fl x\<bar>"
  proof (cases "fl x = 0")
    case True
    have "0 \<le> bitlen (- 1)" by (rule bitlen_nonneg)
    then show ?thesis using True by (simp add: ilog2_def)
  next
    case False
    then have "0 < \<bar>fl x\<bar>" by simp
    from ilog2_bounds(1) [OF this] have "pow2 (ilog2 \<bar>fl x\<bar>) < pow2 1024"
      using assms(2) by linarith
    then show ?thesis using pow2_less_cancel by fastforce
  qed
  show ?thesis using xn lo hi by (simp add: dbl_def Let_def)
qed

lemma dbl_int:
  assumes "\<bar>n\<bar> < 2 ^ 53"
  shows "dbl (of_int n) = Fin (of_int n)"
proof (cases "n = 0")
  case True
  then show ?thesis by (simp add: dbl_def)
next
  case False
  have f: "fl (of_int n) = of_int n" using assms by (rule fl_int_abs)
  have "1 \<le> \<bar>n\<bar>" using False by simp
  then have "(1::rat) \<le> \<bar>of_int n\<bar>" by (metis of_int_1 of_int_abs of_int_le_iff)
  moreover have "pow2 (- 1022) \<le> pow2 0" by (rule pow2_mono) simp
  ultimately have lo: "pow2 (- 1022) \<le> \<bar>of_int n :: rat\<bar>" by (simp add: pow2_0)
  have "\<bar>of_int n :: rat\<bar> < of_int (2 ^ 53)" using assms by (metis of_int_abs of_int_less_iff)
  also have "\<dots> = pow2 53" by (simp add: pow2_53)
  also have "\<dots> \<le> pow2 1024" by (rule pow2_mono) simp
  finally have hi: "\<bar>fl (of_int n)\<bar> < pow2 1024" unfolding f .
  show ?thesis using dbl_normal [OF lo hi] f by simp
qed

lemma dbl_mean:
  fixes S :: int and d :: nat
  assumes "0 \<le> S" "S < 2 ^ 53" "1 \<le> d" "d < 2 ^ 32"
  shows "dbl (of_int S / of_nat d) = Fin (fl (of_int S / of_nat d))"
proof (cases "S = 0")
  case True
  then show ?thesis by (simp add: dbl_def fl_def)
next
  case False
  let ?x = "of_int S / of_nat d :: rat"
  have S1: "1 \<le> S" using False assms(1) by simp
  have dpos: "(0::rat) < of_nat d" using assms(3) by simp
  have "(of_nat d :: rat) \<le> of_nat (2 ^ 32)" using assms(4) by (simp only: of_nat_le_iff)
  then have dle: "(of_nat d :: rat) \<le> 4294967296" by simp
  have "(1::rat) \<le> of_int S" using S1 by simp
  then have "1 / 4294967296 \<le> ?x"
    using dpos dle by (simp add: field_simps)
  moreover have "pow2 (- 32) = 1 / 4294967296" by (simp add: pow2_def)
  moreover have "pow2 (- 1022) \<le> pow2 (- 32)" by (rule pow2_mono) simp
  ultimately have lo': "pow2 (- 1022) \<le> ?x" by linarith
  have xpos: "0 < ?x" using lo' pow2_pos [of "- 1022"] by linarith
  then have "\<bar>?x\<bar> = ?x" by (rule abs_of_pos)
  then have lo: "pow2 (- 1022) \<le> \<bar>?x\<bar>" using lo' by (simp only:)
  have "(of_int S :: rat) \<le> of_int (2 ^ 53)" using assms(2) by (simp only: of_int_le_iff)
  moreover have "(1::rat) \<le> of_nat d" using assms(3) by simp
  ultimately have "?x \<le> of_int 1 * pow2 53"
    using dpos by (simp add: pow2_53 field_simps)
  from fl_le [OF xpos this] have "fl ?x \<le> pow2 53" by simp
  moreover have "pow2 53 < pow2 1024" by (rule pow2_strict_mono) simp
  moreover have "0 \<le> fl ?x" using xpos by (intro fl_nonneg) simp
  ultimately have hi: "\<bar>fl ?x\<bar> < pow2 1024" by simp
  show ?thesis by (rule dbl_normal [OF lo hi])
qed

lemma sq_bound:
  fixes u B :: int
  assumes "\<bar>u\<bar> \<le> 2 * B"
  shows "0 \<le> u * u" "u * u \<le> 4 * (B * B)"
proof -
  show "0 \<le> u * u" by simp
  have "\<bar>u\<bar> * \<bar>u\<bar> \<le> (2 * B) * (2 * B)" using assms by (intro mult_mono) simp_all
  then show "u * u \<le> 4 * (B * B)" by (simp add: abs_mult_self_eq)
qed

lemma sqdist_exact:
  fixes a a' b b' B :: int
  assumes "\<bar>a\<bar> \<le> B" "\<bar>a'\<bar> \<le> B" "\<bar>b\<bar> \<le> B" "\<bar>b'\<bar> \<le> B" "8 * (B * B) < 2 ^ 53"
  shows "dadd (dmul (dsub (Fin (of_int a')) (Fin (of_int a)))
                    (dsub (Fin (of_int a')) (Fin (of_int a))))
              (dmul (dsub (Fin (of_int b')) (Fin (of_int b)))
                    (dsub (Fin (of_int b')) (Fin (of_int b))))
           = Fin (of_int ((a' - a) * (a' - a) + (b' - b) * (b' - b)))"
    and "0 \<le> (a' - a) * (a' - a) + (b' - b) * (b' - b)"
    and "(a' - a) * (a' - a) + (b' - b) * (b' - b) \<le> 8 * (B * B)"
proof -
  define u where "u = a' - a"
  define v where "v = b' - b"
  define Q where "Q = B * B"
  define U where "U = u * u"
  define V where "V = v * v"
  have B0: "0 \<le> B" using assms(1) by linarith
  have BB: "B \<le> Q"
  proof (cases "B = 0")
    case True
    then show ?thesis by (simp add: Q_def)
  next
    case False
    then have "1 * B \<le> B * B" using B0 by (intro mult_right_mono) simp_all
    then show ?thesis by (simp add: Q_def)
  qed
  have M: "8 * Q < 9007199254740992" using assms(5) by (simp add: Q_def)
  have u: "\<bar>u\<bar> \<le> 2 * B" and v: "\<bar>v\<bar> \<le> 2 * B" using assms(1-4) by (simp_all add: u_def v_def)
  have su: "0 \<le> U" "U \<le> 4 * Q" using sq_bound [OF u] by (simp_all add: U_def Q_def)
  have sv: "0 \<le> V" "V \<le> 4 * Q" using sq_bound [OF v] by (simp_all add: V_def Q_def)
  have "\<bar>u\<bar> < 9007199254740992" "\<bar>v\<bar> < 9007199254740992" using u v BB M B0 by linarith+
  then have ub: "\<bar>u\<bar> < 2 ^ 53" and vb: "\<bar>v\<bar> < 2 ^ 53" by simp_all
  have "\<bar>U\<bar> < 9007199254740992" "\<bar>V\<bar> < 9007199254740992" "\<bar>U + V\<bar> < 9007199254740992"
    using su sv M by linarith+
  then have uub: "\<bar>U\<bar> < 2 ^ 53" and vvb: "\<bar>V\<bar> < 2 ^ 53" and sb: "\<bar>U + V\<bar> < 2 ^ 53"
    by simp_all
  have du: "dsub (Fin (of_int a')) (Fin (of_int a)) = Fin (of_int u)"
    using dbl_int [OF ub] by (simp add: dsub_def u_def)
  have dv: "dsub (Fin (of_int b')) (Fin (of_int b)) = Fin (of_int v)"
    using dbl_int [OF vb] by (simp add: dsub_def v_def)
  have muu: "dmul (Fin (of_int u)) (Fin (of_int u)) = Fin (of_int U)"
    using dbl_int [OF uub] by (simp add: dmul_def U_def)
  have mvv: "dmul (Fin (of_int v)) (Fin (of_int v)) = Fin (of_int V)"
    using dbl_int [OF vvb] by (simp add: dmul_def V_def)
  have "dadd (Fin (of_int U)) (Fin (of_int V)) = Fin (of_int (U + V))"
    using dbl_int [OF sb] by (simp add: dadd_def)
  then show "dadd (dmul (dsub (Fin (of_int a')) (Fin (of_int a)))
                    (dsub (Fin (of_int a')) (Fin (of_int a))))
              (dmul (dsub (Fin (of_int b')) (Fin (of_int b)))
                    (dsub (Fin (of_int b')) (Fin (of_int b))))
           = Fin (of_int ((a' - a) * (a' - a) + (b' - b) * (b' - b)))"
    unfolding du dv muu mvv by (simp only: U_def V_def u_def v_def)
  show "0 \<le> (a' - a) * (a' - a) + (b' - b) * (b' - b)"
    using su(1) sv(1) unfolding U_def V_def u_def v_def by linarith
  show "(a' - a) * (a' - a) + (b' - b) * (b' - b) \<le> 8 * (B * B)"
    using su(2) sv(2) unfolding U_def V_def u_def v_def Q_def by linarith
qed

lemma foldl_exact:
  fixes D :: "nat \<Rightarrow> int" and M s :: int
  assumes "\<forall>j\<in>set js. f j = Fin (of_int (D j)) \<and> 0 \<le> D j \<and> D j \<le> M"
    and "0 \<le> s" "0 \<le> M" "s + int (length js) * M < 2 ^ 53"
  shows "foldl dadd (Fin (of_int s)) (map f js) = Fin (of_int (s + (\<Sum>j\<leftarrow>js. D j)))
         \<and> 0 \<le> s + (\<Sum>j\<leftarrow>js. D j) \<and> s + (\<Sum>j\<leftarrow>js. D j) < 2 ^ 53"
  using assms
proof (induction js arbitrary: s)
  case Nil
  then show ?case by simp
next
  case (Cons j js)
  have fj: "f j = Fin (of_int (D j))" "0 \<le> D j" "D j \<le> M" using Cons.prems(1) by simp_all
  have rest: "\<forall>j\<in>set js. f j = Fin (of_int (D j)) \<and> 0 \<le> D j \<and> D j \<le> M"
    using Cons.prems(1) by simp
  have e: "s + int (length (j # js)) * M = s + M + int (length js) * M"
    by (simp add: algebra_simps)
  have lm: "0 \<le> int (length js) * M" using Cons.prems(3) by simp
  have s': "0 \<le> s + D j" using Cons.prems(2) fj by simp
  have b': "s + D j + int (length js) * M < 2 ^ 53"
    using Cons.prems(4) fj(3) unfolding e by linarith
  have "s + D j < 2 ^ 53" using b' lm by linarith
  then have "\<bar>s + D j\<bar> < 2 ^ 53" using s' by simp
  from dbl_int [OF this] have st: "dadd (Fin (of_int s)) (f j) = Fin (of_int (s + D j))"
    by (simp add: dadd_def fj(1))
  show ?case using Cons.IH [OF rest s' Cons.prems(3) b'] by (simp add: st add.assoc)
qed

lemma TAMSD_exact:
  fixes B :: int
  assumes "delta < t" "t \<le> length walk" "t < 2 ^ 32"
    and "\<forall>p\<in>set walk. fst p \<in> \<int> \<and> snd p \<in> \<int> \<and> \<bar>fst p\<bar> \<le> of_int B \<and> \<bar>snd p\<bar> \<le> of_int B"
    and "int (t - delta) * (8 * (B * B)) < 2 ^ 53"
  shows "TAMSD walk t delta =
     Some (Fin (fl ((\<Sum>i<t - delta. (fst (walk ! (i + delta)) - fst (walk ! i))\<^sup>2
                                    + (snd (walk ! (i + delta)) - snd (walk ! i))\<^sup>2)
                    / of_nat (t - delta))))"
proof -
  define n where "n = t - delta"
  define X where "X i = \<lfloor>fst (walk ! i)\<rfloor>" for i
  define Y where "Y i = \<lfloor>snd (walk ! i)\<rfloor>" for i
  define D where "D i = (X (i + delta) - X i) * (X (i + delta) - X i)
                        + (Y (i + delta) - Y i) * (Y (i + delta) - Y i)" for i
  define M where "M = 8 * (B * B)"
  define f where "f i = dadd (dmul (dsub (Fin (fst (walk ! (i + delta)))) (Fin (fst (walk ! i))))
                                   (dsub (Fin (fst (walk ! (i + delta)))) (Fin (fst (walk ! i)))))
                             (dmul (dsub (Fin (snd (walk ! (i + delta)))) (Fin (snd (walk ! i))))
                                   (dsub (Fin (snd (walk ! (i + delta)))) (Fin (snd (walk ! i)))))"
    for i
  have n1: "1 \<le> n" and nb: "n < 2 ^ 32" using assms(1,3) by (simp_all add: n_def)
  have M0: "0 \<le> M" by (simp add: M_def)
  have nM: "int n * M < 2 ^ 53" using assms(5) by (simp add: n_def M_def)
  have "1 * M \<le> int n * M" using n1 M0 by (intro mult_right_mono) simp_all
  then have "M < 2 ^ 53" using nM by linarith
  then have Mb: "8 * (B * B) < 2 ^ 53" by (simp only: M_def)
  have pt: "fst (walk ! i) = of_int (X i) \<and> snd (walk ! i) = of_int (Y i)
            \<and> \<bar>X i\<bar> \<le> B \<and> \<bar>Y i\<bar> \<le> B" if "i < length walk" for i
  proof -
    have "walk ! i \<in> set walk" using that by simp
    then have p: "fst (walk ! i) \<in> \<int>" "snd (walk ! i) \<in> \<int>"
      "\<bar>fst (walk ! i)\<bar> \<le> of_int B" "\<bar>snd (walk ! i)\<bar> \<le> of_int B"
      using assms(4) by blast+
    have x: "fst (walk ! i) = of_int (X i)"
      using p(1) unfolding X_def by (elim Ints_cases) simp
    have y: "snd (walk ! i) = of_int (Y i)"
      using p(2) unfolding Y_def by (elim Ints_cases) simp
    have "\<bar>of_int (X i) :: rat\<bar> \<le> of_int B" "\<bar>of_int (Y i) :: rat\<bar> \<le> of_int B"
      using p(3,4) x y by simp_all
    then have "\<bar>X i\<bar> \<le> B" "\<bar>Y i\<bar> \<le> B" by (simp_all flip: of_int_abs)
    with x y show ?thesis by simp
  qed
  have el: "f i = Fin (of_int (D i)) \<and> 0 \<le> D i \<and> D i \<le> M" if "i < n" for i
  proof -
    have i1: "i < length walk" and i2: "i + delta < length walk"
      using that assms(1,2) by (simp_all add: n_def)
    note a = pt [OF i1] and b = pt [OF i2]
    from sqdist_exact [of "X i" B "X (i + delta)" "Y i" "Y (i + delta)"] a b Mb
    show ?thesis by (simp add: f_def D_def M_def)
  qed
  then have all: "\<forall>j\<in>set [0..<n]. f j = Fin (of_int (D j)) \<and> 0 \<le> D j \<and> D j \<le> M" by simp
  have "(0::int) + int (length [0..<n]) * M < 2 ^ 53" using nM by simp
  from foldl_exact [OF all _ M0 this]
  have fo: "foldl dadd (Fin (of_int 0)) (map f [0..<n]) = Fin (of_int (0 + (\<Sum>j\<leftarrow>[0..<n]. D j)))"
    and S0: "0 \<le> 0 + (\<Sum>j\<leftarrow>[0..<n]. D j)" and Sb: "0 + (\<Sum>j\<leftarrow>[0..<n]. D j) < 2 ^ 53"
    by simp_all
  define S where "S = (\<Sum>j\<leftarrow>[0..<n]. D j)"
  have fo': "foldl dadd (Fin 0) (map f [0..<n]) = Fin (of_int S)" using fo by (simp add: S_def)
  have S: "0 \<le> S" "S < 2 ^ 53" using S0 Sb by (simp_all add: S_def)
  have "TAMSD walk t delta = Some (ddiv (foldl dadd (Fin 0) (map f [0..<n])) (of_nat n))"
    using TAMSD_double [OF assms(1-3)] unfolding f_def n_def .
  also have "\<dots> = Some (dbl (of_int S / of_nat n))"
    using n1 by (simp add: fo' ddiv_def)
  also have "\<dots> = Some (Fin (fl (of_int S / of_nat n)))"
    using dbl_mean [OF S n1 nb] by simp
  finally have r: "TAMSD walk t delta = Some (Fin (fl (of_int S / of_nat n)))" .
  have "(of_int S :: rat) = (\<Sum>i<n. of_int (D i))"
    by (simp add: S_def interv_sum_list_conv_sum_set_nat lessThan_atLeast0)
  also have "\<dots> = (\<Sum>i<n. (fst (walk ! (i + delta)) - fst (walk ! i))\<^sup>2
                                    + (snd (walk ! (i + delta)) - snd (walk ! i))\<^sup>2)"
  proof (rule sum.cong [OF refl])
    fix i assume "i \<in> {..<n}"
    then have i1: "i < length walk" and i2: "i + delta < length walk"
      using assms(1,2) by (simp_all add: n_def)
    show "(of_int (D i) :: rat) = (fst (walk ! (i + delta)) - fst (walk ! i))\<^sup>2
                                    + (snd (walk ! (i + delta)) - snd (walk ! i))\<^sup>2"
      using pt [OF i1] pt [OF i2] by (simp add: D_def power2_eq_square)
  qed
  finally show ?thesis using r by (simp add: n_def)
qed

lemma fl_pow2: "fl (pow2 e) = pow2 e"
proof -
  have 1: "pow2 (e - 52 + 52) \<le> pow2 e" by simp
  have 2: "pow2 e < pow2 (e - 52 + 53)" by (rule pow2_strict_mono) simp
  have "pow2 e / pow2 (e - 52) = of_int (2 ^ 52)"
    using pow2_scale [of e "e - 52"] by (simp add: pow2_52)
  then have 3: "\<bar>pow2 e / pow2 (e - 52) - of_int (2 ^ 52)\<bar> < 1 / 2" by simp
  have "fl (pow2 e) = of_int (2 ^ 52) * pow2 (e - 52)" by (rule fl_eqI [OF 1 2 3])
  also have "\<dots> = pow2 52 * pow2 (e - 52)" by (simp only: pow2_52)
  also have "\<dots> = pow2 e" using pow2_add [of 52 "e - 52"] by simp
  finally show ?thesis .
qed

lemma dbl_pow2:
  assumes "- 1022 \<le> e" "e < 1024"
  shows "dbl (pow2 e) = Fin (pow2 e)"
proof -
  have p: "\<bar>pow2 e\<bar> = pow2 e" using pow2_pos [of e] by simp
  have lo: "pow2 (- 1022) \<le> \<bar>pow2 e\<bar>" unfolding p using assms(1) by (rule pow2_mono)
  have hi: "\<bar>fl (pow2 e)\<bar> < pow2 1024" unfolding fl_pow2 p using assms(2) by (rule pow2_strict_mono)
  show ?thesis using dbl_normal [OF lo hi] by (simp only: fl_pow2)
qed

lemma dbl_overflow:
  assumes "pow2 (- 1022) \<le> \<bar>x\<bar>" "pow2 1024 \<le> \<bar>fl x\<bar>"
  shows "dbl x = NonFinite"
proof -
  have x0: "0 < \<bar>x\<bar>" using assms(1) pow2_pos [of "- 1022"] by linarith
  then have xn: "x \<noteq> 0" by simp
  have "pow2 (- 1022) < pow2 (ilog2 \<bar>x\<bar> + 1)"
    using assms(1) ilog2_bounds(2) [OF x0] by linarith
  then have lo: "\<not> ilog2 \<bar>x\<bar> < - 1022" using pow2_less_cancel by fastforce
  have y0: "0 < \<bar>fl x\<bar>" using assms(2) pow2_pos [of 1024] by linarith
  have "pow2 1024 < pow2 (ilog2 \<bar>fl x\<bar> + 1)"
    using assms(2) ilog2_bounds(2) [OF y0] by linarith
  then have hi: "1024 \<le> ilog2 \<bar>fl x\<bar>" using pow2_less_cancel by fastforce
  show ?thesis using xn lo hi by (simp add: dbl_def Let_def)
qed

lemma TAMSD_overflow_example: "TAMSD [(0, 0), (pow2 600, 0)] 2 1 = Some NonFinite"
proof -
  have d1: "dsub (Fin (pow2 600)) (Fin 0) = Fin (pow2 600)"
    by (simp add: dsub_def dbl_pow2)
  have p: "\<bar>pow2 1200\<bar> = pow2 1200" using pow2_pos [of 1200] by simp
  have lo: "pow2 (- 1022) \<le> \<bar>pow2 1200\<bar>" unfolding p by (rule pow2_mono) simp
  have hi: "pow2 1024 \<le> \<bar>fl (pow2 1200)\<bar>" unfolding fl_pow2 p by (rule pow2_mono) simp
  have "pow2 600 * pow2 600 = pow2 1200" using pow2_add [of 600 600] by simp
  then have d2: "dmul (Fin (pow2 600)) (Fin (pow2 600)) = NonFinite"
    using dbl_overflow [OF lo hi] by (simp add: dmul_def)
  have s: "SquaredDist (pow2 600) 0 0 0 = NonFinite"
    by (simp add: SquaredDist_def Let_def d1 d2)
  show ?thesis
    by (simp add: TAMSD_def u32_def col_get_def s)
qed

text \<open>
  C7 (as the code has it). For walks of \<open>walkLength \<ge> 2\<close> columns with finite
  coordinates: \<open>TAMSD(walk, t, delta)\<close> with \<open>delta < t \<le> walkLength\<close> is the
  double-precision evaluation of the mean over \<open>i \<in> [0, t - delta)\<close> of the squared
  Euclidean displacement between the ticks \<open>i + delta\<close> and \<open>i\<close>: the terms
  \<open>(x(i + delta) - x(i))\<^sup>2 + (y(i + delta) - y(i))\<^sup>2\<close> are added in index order to an
  accumulator that starts at 0 and the sum is divided by \<open>t - delta\<close>, every
  operation rounded, and non-finite after an overflow. When the coordinates are
  integers of magnitude at most \<open>B\<close> and \<open>8 B\<^sup>2 (t - delta) < 2^53\<close>, nothing is
  rounded before the division and the result is the exact mean rounded to the
  nearest double. \<open>TAMSD(walk, t, t)\<close> returns a non-finite value and does not
  raise; and \<open>AnalyseWalks\<close> returns a result whose ensemble-time-average column
  (column 1) has the entry 0 in row 0, the row of the call \<open>TAMSD(walk, 1, 1)\<close>,
  and no non-finite entry.
\<close>

theorem TAMSD_mean_and_neutralised:
  assumes "walksCoords \<noteq> []" "\<forall>w\<in>set walksCoords. length w = walkLength"
    "2 \<le> walkLength" "walkLength < 2 ^ 32"
  shows "(\<forall>w\<in>set walksCoords. \<forall>t delta. delta < t \<and> t \<le> walkLength \<longrightarrow>
            TAMSD w t delta =
              Some (ddiv (foldl dadd (Fin 0)
                      (map (\<lambda>i. dadd (dmul (dsub (Fin (fst (w ! (i + delta)))) (Fin (fst (w ! i))))
                                          (dsub (Fin (fst (w ! (i + delta)))) (Fin (fst (w ! i)))))
                                    (dmul (dsub (Fin (snd (w ! (i + delta)))) (Fin (snd (w ! i))))
                                          (dsub (Fin (snd (w ! (i + delta)))) (Fin (snd (w ! i))))))
                           [0..<t - delta]))
                    (of_nat (t - delta))))
       \<and> (\<forall>w\<in>set walksCoords. \<forall>t delta B.
            delta < t \<and> t \<le> walkLength
            \<and> (\<forall>p\<in>set w. fst p \<in> \<int> \<and> snd p \<in> \<int>
                            \<and> \<bar>fst p\<bar> \<le> of_int B \<and> \<bar>snd p\<bar> \<le> of_int B)
            \<and> int (t - delta) * (8 * (B * B)) < 2 ^ 53 \<longrightarrow>
            TAMSD w t delta =
              Some (Fin (fl ((\<Sum>i<t - delta. (fst (w ! (i + delta)) - fst (w ! i))\<^sup>2
                                             + (snd (w ! (i + delta)) - snd (w ! i))\<^sup>2)
                             / of_nat (t - delta)))))
       \<and> (\<forall>w\<in>set walksCoords. \<forall>t. TAMSD w t t = Some NonFinite)
       \<and> (\<exists>A. AnalyseWalks walksCoords walkLength = Some A
             \<and> length (A ! 1) = walkLength - 1
             \<and> A ! 1 ! 0 = Fin 0
             \<and> (\<forall>v\<in>set (A ! 1). \<not> is_nonfinite v))"
proof (intro conjI ballI allI impI)
  fix w t delta
  assume w: "w \<in> set walksCoords" and td: "delta < t \<and> t \<le> walkLength"
  have "t \<le> length w" "t < 2 ^ 32" using w td assms(2,4) by auto
  with td show "TAMSD w t delta =
              Some (ddiv (foldl dadd (Fin 0)
                      (map (\<lambda>i. dadd (dmul (dsub (Fin (fst (w ! (i + delta)))) (Fin (fst (w ! i))))
                                          (dsub (Fin (fst (w ! (i + delta)))) (Fin (fst (w ! i)))))
                                    (dmul (dsub (Fin (snd (w ! (i + delta)))) (Fin (snd (w ! i))))
                                          (dsub (Fin (snd (w ! (i + delta)))) (Fin (snd (w ! i))))))
                           [0..<t - delta]))
                    (of_nat (t - delta)))"
    by (intro TAMSD_double) auto
next
  fix w t delta and B :: int
  assume w: "w \<in> set walksCoords"
    and h: "delta < t \<and> t \<le> walkLength
            \<and> (\<forall>p\<in>set w. fst p \<in> \<int> \<and> snd p \<in> \<int>
                            \<and> \<bar>fst p\<bar> \<le> of_int B \<and> \<bar>snd p\<bar> \<le> of_int B)
            \<and> int (t - delta) * (8 * (B * B)) < 2 ^ 53"
  have t: "t \<le> length w" "t < 2 ^ 32" using w h assms(2,4) by auto
  from h have d: "delta < t"
    and c: "\<forall>p\<in>set w. fst p \<in> \<int> \<and> snd p \<in> \<int> \<and> \<bar>fst p\<bar> \<le> of_int B \<and> \<bar>snd p\<bar> \<le> of_int B"
    and b: "int (t - delta) * (8 * (B * B)) < 2 ^ 53" by blast+
  show "TAMSD w t delta =
              Some (Fin (fl ((\<Sum>i<t - delta. (fst (w ! (i + delta)) - fst (w ! i))\<^sup>2
                                             + (snd (w ! (i + delta)) - snd (w ! i))\<^sup>2)
                             / of_nat (t - delta))))"
    by (rule TAMSD_exact [OF d t c b])
next
  fix w t
  show "TAMSD w t t = Some NonFinite" by (rule TAMSD_degenerate)
next
  show "\<exists>A. AnalyseWalks walksCoords walkLength = Some A
             \<and> length (A ! 1) = walkLength - 1
             \<and> A ! 1 ! 0 = Fin 0
             \<and> (\<forall>v\<in>set (A ! 1). \<not> is_nonfinite v)"
    using AnalyseWalks_degenerate_row [OF assms] .
qed

text \<open>
  An instance: two walks of three ticks on integer coordinates. For the first,
  the squared displacements at lag 1 are 1 and 1, and their mean is 1.
\<close>

theorem TAMSD_mean_and_neutralised_witness:
  "TAMSD [(0, 0), (1, 0), (1, 1)] 3 1 = Some (Fin 1)
   \<and> TAMSD [(0, 0), (1, 0), (1, 1)] 3 1
       = Some (Fin (fl ((\<Sum>i<2. (fst (([(0, 0), (1, 0), (1, 1)] :: (rat \<times> rat) list) ! (i + 1))
                                 - fst (([(0, 0), (1, 0), (1, 1)] :: (rat \<times> rat) list) ! i))\<^sup>2
                              + (snd (([(0, 0), (1, 0), (1, 1)] :: (rat \<times> rat) list) ! (i + 1))
                                 - snd (([(0, 0), (1, 0), (1, 1)] :: (rat \<times> rat) list) ! i))\<^sup>2) / 2)))
   \<and> TAMSD [(0, 0), (1, 0), (1, 1)] 3 3 = Some NonFinite
   \<and> (\<exists>A. AnalyseWalks [[(0, 0), (1, 0), (1, 1)], [(0, 0), (0, 1), (0, 2)]] 3 = Some A
         \<and> A ! 1 ! 0 = Fin 0)"
proof -
  let ?w = "[(0, 0), (1, 0), (1, 1)] :: (rat \<times> rat) list"
  let ?ws = "[?w, [(0, 0), (0, 1), (0, 2)]]"
  have h: "?ws \<noteq> []" "\<forall>w\<in>set ?ws. length w = 3" "(2::nat) \<le> 3" "(3::nat) < 2 ^ 32"
    by simp_all
  note T = TAMSD_mean_and_neutralised [OF h]
  have 0: "TAMSD ?w 3 1 = Some (Fin 1)" by code_simp
  from T have a: "\<forall>w\<in>set ?ws. \<forall>t delta B.
            delta < t \<and> t \<le> 3
            \<and> (\<forall>p\<in>set w. fst p \<in> \<int> \<and> snd p \<in> \<int>
                            \<and> \<bar>fst p\<bar> \<le> of_int B \<and> \<bar>snd p\<bar> \<le> of_int B)
            \<and> int (t - delta) * (8 * (B * B)) < 2 ^ 53 \<longrightarrow>
            TAMSD w t delta =
              Some (Fin (fl ((\<Sum>i<t - delta. (fst (w ! (i + delta)) - fst (w ! i))\<^sup>2
                                             + (snd (w ! (i + delta)) - snd (w ! i))\<^sup>2)
                             / of_nat (t - delta))))" by blast
  have "TAMSD ?w 3 1 =
              Some (Fin (fl ((\<Sum>i<3 - 1. (fst (?w ! (i + 1)) - fst (?w ! i))\<^sup>2
                                             + (snd (?w ! (i + 1)) - snd (?w ! i))\<^sup>2)
                             / of_nat (3 - 1))))"
    by (rule a [rule_format, where B = 1]) simp_all
  moreover have "(3::nat) - 1 = 2" by simp
  ultimately have 1: "TAMSD ?w 3 1 =
              Some (Fin (fl ((\<Sum>i<2. (fst (?w ! (i + 1)) - fst (?w ! i))\<^sup>2
                                             + (snd (?w ! (i + 1)) - snd (?w ! i))\<^sup>2) / 2)))"
    by simp
  from T have 2: "TAMSD ?w 3 3 = Some NonFinite" by simp
  from T have 3: "\<exists>A. AnalyseWalks ?ws 3 = Some A \<and> A ! 1 ! 0 = Fin 0" by blast
  show ?thesis by (rule conjI [OF 0 conjI [OF 1 conjI [OF 2 3]]])
qed

text \<open>
  The value is not the mean itself. For the squared displacements 1, 0 and 0 the
  mean is \<open>1/3\<close> and \<open>TAMSD\<close> returns the nearest double,
  \<open>6004799503160661 / 2^54\<close>; for a single displacement of \<open>2^600\<close> the square
  overflows and \<open>TAMSD\<close> returns a non-finite value where the mean is \<open>2^1200\<close>.
\<close>

theorem TAMSD_rounding_counterexample:
  "TAMSD [(0, 0), (1, 0), (1, 0), (1, 0)] 4 1
     = Some (Fin (6004799503160661 / 18014398509481984))
   \<and> TAMSD [(0, 0), (1, 0), (1, 0), (1, 0)] 4 1 \<noteq> Some (Fin (1 / 3))
   \<and> TAMSD [(0, 0), (2 ^ 600, 0)] 2 1 = Some NonFinite"
proof -
  have 1: "TAMSD [(0, 0), (1, 0), (1, 0), (1, 0)] 4 1
     = Some (Fin (6004799503160661 / 18014398509481984))" by code_simp
  have "(2::rat) ^ 600 = pow2 600" by (simp add: pow2_def)
  then have 2: "TAMSD [(0, 0), (2 ^ 600, 0)] 2 1 = Some NonFinite"
    by (simp only: TAMSD_overflow_example)
  have 3: "TAMSD [(0, 0), (1, 0), (1, 0), (1, 0)] 4 1 \<noteq> Some (Fin (1 / 3))"
    unfolding 1 by simp
  show ?thesis by (rule conjI [OF 1 conjI [OF 3 2]])
qed

section \<open>Zeroing of non-finite entries\<close>

text \<open>
  C8 (evaluation at a failing input). One walk of two ticks, from \<open>(0, 0)\<close> to
  \<open>(1, 0)\<close>. The per-walk columns are \<open>eaMSDall = [1]\<close>, \<open>taMSD = [1]\<close> and
  \<open>eataMSDall = [NaN]\<close>. The statement
  \<open>eaMSDall.elem(find_nonfinite(eataMSDall)).zeros()\<close> zeroes the finite entry of
  \<open>eaMSDall\<close> at the position of the NaN of \<open>eataMSDall\<close>, which itself stays in
  place until after the mean: the ensemble MSD of the result is 0, not the mean 1
  of its per-walk column.
\<close>

theorem AnalyseWalks_lag1_example:
  "walk_columns [(0, 0), (1, 0)] 2 = Some ([Fin 1], [Fin 1], [NonFinite])
   \<and> AnalyseWalks [[(0, 0), (1, 0)]] 2 = Some [[Fin 0], [Fin 0], [Fin 0], [Fin 1]]"
  by code_simp

section \<open>Root finding and union keep the lattice well-formed\<close>





lemma neg_part_nonneg: "0 \<le> neg_part v"
  by (simp add: neg_part_def)

lemma weight_sum: "weight l = (\<Sum>k<length l. neg_part (l ! k))"
  by (simp add: weight_def sum_list_sum_nth atLeast0LessThan)



lemma weight_nonneg: "0 \<le> weight l"
  unfolding weight_sum by (intro sum_nonneg) (simp add: neg_part_nonneg)














section \<open>The number of occupied sites\<close>




section \<open>The swap index of the shuffle\<close>

lemma fl_zero: "fl 0 = 0"
  by (simp add: fl_def)

lemma fl_of_nat: "n < 2 ^ 53 \<Longrightarrow> fl (of_nat n) = of_nat n"
  using fl_int [of "int n"] by simp

lemma perm_index_zero:
  assumes "i < 2 ^ 31"
  shows "perm_index N i 0 = int i"
proof -
  have "i < 2 ^ 53" using assms by (rule less_trans) simp
  then have f: "fl (of_nat i) = of_nat i" by (rule fl_of_nat)
  have "trunc (of_nat i) = int i" by (simp add: trunc_def)
  moreover have "i32 (int i) = int i" using assms by (intro i32_id) auto
  ultimately show ?thesis by (simp add: perm_index_def f fl_zero)
qed

lemma perm_swap_same:
  assumes "0 \<le> i" "i < int (length occ)" "- (2 ^ 31) \<le> occ ! nat i" "occ ! nat i < 2 ^ 31"
  shows "perm_swap occ i i = Some occ"
proof -
  have "i32 (occ ! nat i) = occ ! nat i" using assms(3,4) by (rule i32_id)
  then show ?thesis using assms(1,2) by (simp add: perm_swap_def lat_get_def lat_set_def)
qed

lemma perm_loop_zero:
  assumes "\<forall>i\<in>set js. i < length occ \<and> draws i = 0" "length occ < 2 ^ 31"
    "\<forall>v\<in>set occ. - (2 ^ 31) \<le> v \<and> v < 2 ^ 31"
  shows "perm_loop N draws js occ = Some occ"
  using assms(1)
proof (induction js)
  case Nil
  then show ?case by simp
next
  case (Cons i js)
  have i: "i < length occ" "draws i = 0" using Cons.prems by auto
  then have "i < 2 ^ 31" using assms(2) by simp
  then have pi: "perm_index N i (draws i) = int i" using i by (simp add: perm_index_zero)
  have "occ ! i \<in> set occ" using i by simp
  then have "- (2 ^ 31) \<le> occ ! i \<and> occ ! i < 2 ^ 31" using assms(3) by blast
  then have "perm_swap occ (int i) (int i) = Some occ"
    using i by (intro perm_swap_same) auto
  then show ?case using Cons pi by simp
qed

lemma perm_loop_append:
  "perm_loop N draws (xs @ ys) occ =
     (case perm_loop N draws xs occ of None \<Rightarrow> None | Some occ' \<Rightarrow> perm_loop N draws ys occ')"
  by (induction xs arbitrary: occ) (auto split: option.splits)

lemma Permutation_out_of_range:
  assumes "0 < N" "N < 2 ^ 31" "\<forall>i<N - 1. draws i = 0"
    "perm_index N (N - 1) (draws (N - 1)) = int N"
  shows "Permutation N draws = None"
proof -
  let ?occ = "map (\<lambda>i. i32 (int i)) [0..<N]"
  have id: "i32 (int i) = int i" if "i < N" for i
    using that assms(2) by (intro i32_id) auto
  have len: "length ?occ = N" by simp
  have rng: "\<forall>v\<in>set ?occ. - (2 ^ 31) \<le> v \<and> v < 2 ^ 31"
    using id assms(2) by auto
  have sp: "[0..<N] = [0..<N - 1] @ [N - 1]"
    using assms(1) by (metis Suc_diff_1 upt_Suc_append zero_le)
  have "perm_loop N draws [0..<N - 1] ?occ = Some ?occ"
    using assms(2,3) rng by (intro perm_loop_zero) auto
  moreover have "perm_swap ?occ (int (N - 1)) (int N) = None"
    using assms(1) by (simp add: perm_swap_def lat_get_def)
  ultimately have "perm_loop N draws ([0..<N - 1] @ [N - 1]) ?occ = None"
    using assms(4) by (simp add: perm_loop_append)
  then show ?thesis unfolding Permutation_def using sp by simp
qed

lemma permConstant_value: "permConstant = 9007199113388757 * pow2 (- 85)"
  unfolding permConstant_def
  by (rule fl_eqI [where m = 9007199113388757 and k = "- 85", simplified]) (simp_all add: pow2_def)

lemma fl_permConstant: "fl permConstant = permConstant"
  unfolding permConstant_value
  by (rule fl_eqI [where m = 9007199113388757 and k = "- 85", simplified]) (simp_all add: pow2_def)

lemma perm_product_value:
  "fl (permConstant * 4294967294) = 9007199109194453 * pow2 (- 53)"
  unfolding permConstant_value
  by (rule fl_eqI [where m = 9007199109194453 and k = "- 53", simplified]) (simp_all add: pow2_def)

lemma perm_sum_value:
  "fl (268468224 + 9007199109194453 * pow2 (- 53)) = 268468225"
proof -
  have "fl (268468224 + 9007199109194453 * pow2 (- 53)) = of_int 4504149399961600 * pow2 (- 24)"
    by (rule fl_eqI) (simp_all add: pow2_def)
  then show ?thesis by (simp add: pow2_def)
qed

lemma perm_index_last: "perm_index 268468225 268468224 4294967294 = 268468225"
proof -
  have a: "fl 268468224 = 268468224"
    using fl_of_nat [of 268468224] by simp
  have b: "fl (of_int (u64 1)) = 1"
    using fl_int [of 1] by (simp add: u64_def)
  have c: "trunc 268468225 = 268468225" by (simp add: trunc_def)
  show ?thesis
    by (simp add: perm_index_def a b fl_permConstant perm_product_value perm_sum_value c i32_def)
qed


text \<open>
  C10 (evaluation at a failing input). Square lattice with \<open>gridSize = 16385\<close>,
  so \<open>N = 268468225\<close>; every draw is 0 except the last one, which is the largest
  value \<open>4294967294\<close> of the distribution. In the last pass \<open>i = N - 1\<close> the
  product \<open>1 * permConstant * u\<close> is about \<open>0.99999998\<close>, and the double sum
  \<open>i + 0.99999998\<close> rounds to \<open>N\<close>: two neighbouring doubles near \<open>2^28\<close> are
  \<open>2^-24\<close> apart. The swap index is \<open>j = N\<close>, outside \<open>[i, N - 1]\<close>, and the
  access \<open>occupation(j)\<close> is out of bounds.
\<close>

theorem Permutation_large_lattice_example:
  "square_N 16385 = 268468225
   \<and> perm_index 268468225 268468224 4294967294 = 268468225
   \<and> Permutation 268468225 (\<lambda>i. if i = 268468224 then 4294967294 else 0) = None"
proof -
  have 1: "square_N 16385 = 268468225" by (simp add: square_N_def u32_def)
  have 3: "Permutation 268468225 (\<lambda>i. if i = 268468224 then 4294967294 else 0) = None"
    by (rule Permutation_out_of_range) (simp_all add: perm_index_last)
  show ?thesis by (rule conjI [OF 1 conjI [OF perm_index_last 3]])
qed

section \<open>The square neighbour table\<close>

lemma u64_id: "0 \<le> x \<Longrightarrow> x < 2 ^ 64 \<Longrightarrow> u64 x = x"
  by (simp add: u64_def)

lemma int_bound_64: "(x::int) < 2 ^ 33 \<Longrightarrow> x < 2 ^ 64"
  by simp

lemma square_le: "1 \<le> (G::int) \<Longrightarrow> G \<le> G * G"
  using mult_left_mono [of 1 G G] by simp

lemma sq_next_lt:
  fixes G a :: int
  assumes "1 \<le> G" "0 \<le> a" "a < G * G" "(a + 1) mod G \<noteq> 0"
  shows "a + 1 < G * G"
proof -
  have "a + 1 \<noteq> G * G"
  proof
    assume "a + 1 = G * G"
    then have "(a + 1) mod G = 0" by simp
    with assms(4) show False by simp
  qed
  then show ?thesis using assms(3) by simp
qed

lemma sq_row_start:
  fixes G a :: int
  assumes "1 \<le> G" "0 \<le> a" "a < G * G" "a mod G = 0"
  shows "a + G \<le> G * G"
proof -
  have "G * (a div G) + a mod G = a" by (rule mult_div_mod_eq)
  then have a: "a = G * (a div G)" using assms(4) by simp
  have "G * (a div G) < G * G" using a assms(3) by simp
  then have "a div G < G" using assms(1) by (simp add: mult_less_cancel_left_pos)
  then have "a div G + 1 \<le> G" by simp
  then have "G * (a div G + 1) \<le> G * G" using assms(1) by (intro mult_left_mono) simp_all
  then have "G * (a div G) + G \<le> G * G" by (simp add: algebra_simps)
  with a show ?thesis by simp
qed

lemma sq_row_end:
  fixes G a :: int
  assumes "1 \<le> G" "0 \<le> a" "(a + 1) mod G = 0"
  shows "G \<le> a + 1"
proof (rule ccontr)
  assume "\<not> G \<le> a + 1"
  then have "(a + 1) mod G = a + 1" using assms(2) by (intro mod_pos_pos_trivial) simp_all
  with assms(2,3) show False by simp
qed

lemma sq_bounds:
  fixes G a :: int
  assumes "1 \<le> G" "0 \<le> a" "a < G * G"
  shows "0 \<le> sq0 G a \<and> sq0 G a < G * G" "0 \<le> sq1 G a \<and> sq1 G a < G * G"
    "0 \<le> sq2 G a \<and> sq2 G a < G * G" "0 \<le> sq3 G a \<and> sq3 G a < G * G"
proof -
  have GG: "0 < G * G" using assms(1) square_le [OF assms(1)] by simp
  show "0 \<le> sq0 G a \<and> sq0 G a < G * G"
  proof (cases "(a + 1) mod G = 0")
    case True
    from sq_row_end [OF assms(1,2) True] show ?thesis using assms True by (simp add: sq0_def)
  next
    case False
    from sq_next_lt [OF assms False] show ?thesis using assms False by (simp add: sq0_def)
  qed
  show "0 \<le> sq1 G a \<and> sq1 G a < G * G"
  proof (cases "a mod G = 0")
    case True
    from sq_row_start [OF assms True] show ?thesis using assms True by (simp add: sq1_def)
  next
    case False
    then have "a \<noteq> 0" by auto
    then show ?thesis using assms False by (simp add: sq1_def)
  qed
  show "0 \<le> sq2 G a \<and> sq2 G a < G * G" using GG by (simp add: sq2_def)
  show "0 \<le> sq3 G a \<and> sq3 G a < G * G" using GG by (simp add: sq3_def)
qed

lemma sq_inverse:
  fixes G a :: int
  assumes "1 \<le> G" "0 \<le> a" "a < G * G"
  shows "sq1 G (sq0 G a) = a" "sq0 G (sq1 G a) = a" "sq3 G (sq2 G a) = a" "sq2 G (sq3 G a) = a"
proof -
  show "sq1 G (sq0 G a) = a"
  proof (cases "(a + 1) mod G = 0")
    case True
    have "(a - G + 1) mod G = (a + 1 - G) mod G" by (simp add: algebra_simps)
    also have "\<dots> = (a + 1) mod G" by simp
    finally have "(a - G + 1) mod G = 0" using True by simp
    then show ?thesis using True by (simp add: sq0_def sq1_def)
  next
    case False
    then show ?thesis by (simp add: sq0_def sq1_def)
  qed
  show "sq0 G (sq1 G a) = a"
  proof (cases "a mod G = 0")
    case True
    have "(a + G - 1 + 1) mod G = (a + G) mod G" by simp
    also have "\<dots> = a mod G" by simp
    finally have "(a + G - 1 + 1) mod G = 0" using True by simp
    then show ?thesis using True by (simp add: sq0_def sq1_def)
  next
    case False
    then show ?thesis by (simp add: sq0_def sq1_def)
  qed
  have m: "a mod (G * G) = a" using assms by (intro mod_pos_pos_trivial) simp_all
  have "sq3 G (sq2 G a) = ((a + G) mod (G * G) + (G * G - G)) mod (G * G)"
    by (simp add: sq2_def sq3_def algebra_simps)
  also have "\<dots> = (a + G + (G * G - G)) mod (G * G)" by (rule mod_add_left_eq)
  also have "\<dots> = (a + G * G) mod (G * G)" by simp
  also have "\<dots> = a" using m by simp
  finally show "sq3 G (sq2 G a) = a" .
  have "sq2 G (sq3 G a) = ((a + G * G - G) mod (G * G) + G) mod (G * G)"
    by (simp add: sq2_def sq3_def)
  also have "\<dots> = (a + G * G - G + G) mod (G * G)" by (rule mod_add_left_eq)
  also have "\<dots> = (a + G * G) mod (G * G)" by simp
  also have "\<dots> = a" using m by simp
  finally show "sq2 G (sq3 G a) = a" .
qed

lemma i32_small: "0 \<le> x \<Longrightarrow> x < 2 ^ 31 \<Longrightarrow> i32 x = x"
  by (intro i32_id) simp_all

lemma square_col_int:
  assumes "0 < g" "g * g < 2 ^ 31" "i < g * g"
  shows "square_col g (g * g) i
           = [sq0 (int g) (int i), sq1 (int g) (int i), sq2 (int g) (int i), sq3 (int g) (int i)]"
proof -
  define G where "G = int g"
  define a where "a = int i"
  have G1: "1 \<le> G" using assms(1) by (simp add: G_def)
  have a0: "0 \<le> a" by (simp add: a_def)
  have "int (g * g) < 2 ^ 31" using assms(2) by (simp only: of_nat_less_numeral_power_cancel_iff)
  then have NN: "G * G < 2 ^ 31" by (simp add: G_def)
  have "int i < int (g * g)" using assms(3) by (simp only: of_nat_less_iff)
  then have aN: "a < G * G" by (simp add: a_def G_def)
  have GG: "G \<le> G * G" by (rule square_le [OF G1])
  have N: "int (g * g) = G * G" by (simp add: G_def)
  have NN': "G * G < 2147483648" using NN by simp
  have a31: "a < 2147483648" and G31: "G < 2147483648" using aN NN' GG by linarith+
  have u: "u64 x = x" if "0 \<le> x" "x < 8589934592" for x
    using that by (intro u64_id) simp_all
  have e0: "u64 (a + 1) = a + 1" using a0 a31 by (intro u) linarith+
  have e1: "u64 (a + G * G - 1) = a + G * G - 1"
    using a0 a31 NN' G1 GG by (intro u) linarith+
  have e2: "u64 (a + G) = a + G" using a0 a31 G31 G1 by (intro u) linarith+
  have e3: "u64 (a + G * G - G) = a + G * G - G"
    using a0 a31 NN' G1 GG by (intro u) linarith+
  have e4: "u64 (a + G - 1) = a + G - 1" using a0 a31 G31 G1 by (intro u) linarith+
  have c1: "(i mod g = 0) = (a mod G = 0)"
  proof -
    have "int (i mod g) = a mod G" by (simp add: a_def G_def zmod_int)
    then show ?thesis by (metis of_nat_eq_0_iff)
  qed
  from sq_bounds [OF G1 a0 aN]
  have b: "0 \<le> sq0 G a" "sq0 G a < G * G" "0 \<le> sq1 G a" "sq1 G a < G * G"
    "0 \<le> sq2 G a" "sq2 G a < G * G" "0 \<le> sq3 G a" "sq3 G a < G * G"
    by simp_all
  have n0: "(if u64 (a + 1) mod G = 0 then u64 (a - G + 1) else u64 (a + 1) mod (G * G)) = sq0 G a"
  proof (cases "(a + 1) mod G = 0")
    case True
    from sq_row_end [OF G1 a0 True] have "u64 (a - G + 1) = a - G + 1"
      using a31 G1 by (intro u) linarith+
    then show ?thesis using True by (simp add: e0 sq0_def)
  next
    case False
    from sq_next_lt [OF G1 a0 aN False] have "(a + 1) mod (G * G) = a + 1"
      using a0 by (intro mod_pos_pos_trivial) simp_all
    then show ?thesis using False by (simp add: e0 sq0_def)
  qed
  have n1: "(if a mod G = 0 then u64 (a + G - 1) else u64 (a + G * G - 1) mod (G * G)) = sq1 G a"
  proof (cases "a mod G = 0")
    case True
    then show ?thesis by (simp add: e4 sq1_def)
  next
    case False
    then have "a \<noteq> 0" by auto
    then have a1: "1 \<le> a" using a0 by simp
    have "(a + G * G - 1) mod (G * G) = (a - 1 + G * G) mod (G * G)" by (simp add: algebra_simps)
    also have "\<dots> = (a - 1) mod (G * G)" by simp
    also have "\<dots> = a - 1" using a1 aN by (intro mod_pos_pos_trivial) simp_all
    finally show ?thesis using False by (simp add: e1 sq1_def)
  qed
  have n2: "u64 (a + G) mod (G * G) = sq2 G a" by (simp add: e2 sq2_def)
  have n3: "u64 (a + G * G - G) mod (G * G) = sq3 G a" by (simp add: e3 sq3_def)
  have i0: "i32 (sq0 G a) = sq0 G a" using b NN by (intro i32_small) simp_all
  have i1: "i32 (sq1 G a) = sq1 G a" using b NN by (intro i32_small) simp_all
  have i2: "i32 (sq2 G a) = sq2 G a" using b NN by (intro i32_small) simp_all
  have i3: "i32 (sq3 G a) = sq3 G a" using b NN by (intro i32_small) simp_all
  have "square_col g (g * g) i = [sq0 G a, sq1 G a, sq2 G a, sq3 G a]"
    unfolding square_col_def Let_def N c1
    unfolding G_def [symmetric] a_def [symmetric]
    by (simp only: n0 n1 n2 n3 list.map i0 i1 i2 i3)
  then show ?thesis by (simp add: G_def a_def)
qed

lemma square_table_ok:
  assumes "0 < g" "g * g < 2 ^ 31"
  shows "length (BoundariesSquare g (g * g)) = g * g
         \<and> (\<forall>a<g * g. length (BoundariesSquare g (g * g) ! a) = 4
               \<and> (\<forall>b\<in>set (BoundariesSquare g (g * g) ! a).
                      0 \<le> b \<and> b < int (g * g)
                      \<and> int a \<in> set (BoundariesSquare g (g * g) ! nat b)))"
proof (intro conjI allI impI)
  show "length (BoundariesSquare g (g * g)) = g * g" by (simp add: BoundariesSquare_def)
next
  fix a assume a: "a < g * g"
  define G where "G = int g"
  have G1: "1 \<le> G" using assms(1) by (simp add: G_def)
  have N: "int (g * g) = G * G" by (simp add: G_def)
  have col: "BoundariesSquare g (g * g) ! i
               = [sq0 G (int i), sq1 G (int i), sq2 G (int i), sq3 G (int i)]"
    if "i < g * g" for i
    using that square_col_int [OF assms that] by (simp add: BoundariesSquare_def G_def)
  show "length (BoundariesSquare g (g * g) ! a) = 4" by (simp add: col [OF a])
  show "\<forall>b\<in>set (BoundariesSquare g (g * g) ! a).
          0 \<le> b \<and> b < int (g * g) \<and> int a \<in> set (BoundariesSquare g (g * g) ! nat b)"
  proof
    fix b assume "b \<in> set (BoundariesSquare g (g * g) ! a)"
    then have b: "b = sq0 G (int a) \<or> b = sq1 G (int a) \<or> b = sq2 G (int a) \<or> b = sq3 G (int a)"
      by (simp add: col [OF a])
    have a0: "0 \<le> int a" by simp
    have "int a < int (g * g)" using a by (simp only: of_nat_less_iff)
    then have aN: "int a < G * G" by (simp only: N)
    note bd = sq_bounds [OF G1 a0 aN]
    note inv = sq_inverse [OF G1 a0 aN]
    have rng: "0 \<le> b \<and> b < G * G" using b bd by auto
    then have "nat b < g * g" using N by (metis nat_less_iff of_nat_0_le_iff zless_nat_conj nat_int)
    note cb = col [OF this]
    have ib: "int (nat b) = b" using rng by simp
    have cb': "BoundariesSquare g (g * g) ! nat b = [sq0 G b, sq1 G b, sq2 G b, sq3 G b]"
      using cb unfolding ib .
    have "int a = sq0 G b \<or> int a = sq1 G b \<or> int a = sq2 G b \<or> int a = sq3 G b"
      using b inv by auto
    then have "int a \<in> set (BoundariesSquare g (g * g) ! nat b)"
      unfolding cb' by auto
    with rng show "0 \<le> b \<and> b < int (g * g) \<and> int a \<in> set (BoundariesSquare g (g * g) ! nat b)"
      by (simp only: N)
  qed
qed

section \<open>The honeycomb neighbour table\<close>

lemma winc_wdec: "0 \<le> x \<Longrightarrow> x < P \<Longrightarrow> winc P (wdec P x) = x"
  by (auto simp: winc_def wdec_def)

lemma wdec_winc: "0 \<le> x \<Longrightarrow> x < P \<Longrightarrow> wdec P (winc P x) = x"
  by (auto simp: winc_def wdec_def)

lemma w_range:
  "0 \<le> x \<Longrightarrow> x < P \<Longrightarrow> 0 \<le> wdec P x \<and> wdec P x < P"
  "0 \<le> x \<Longrightarrow> x < P \<Longrightarrow> 0 \<le> winc P x \<and> winc P x < P"
  by (auto simp: winc_def wdec_def)

lemma w_mod4:
  assumes "0 \<le> c" "c < 4 * G"
  shows "wdec (4 * G) c mod 4 = (c - 1) mod 4" "winc (4 * G) c mod 4 = (c + 1) mod 4"
proof -
  show "wdec (4 * G) c mod 4 = (c - 1) mod 4"
  proof (cases "c = 0")
    case True
    have "(4 * G - 1) mod 4 = (- 1 + G * 4) mod 4" by (simp add: algebra_simps)
    also have "\<dots> = (- 1) mod 4" by (rule mod_mult_self1)
    finally show ?thesis using True by (simp add: wdec_def)
  next
    case False
    then show ?thesis by (simp add: wdec_def)
  qed
  show "winc (4 * G) c mod 4 = (c + 1) mod 4"
  proof (cases "c = 4 * G - 1")
    case True
    then have "c + 1 = G * 4" by simp
    then have "(c + 1) mod 4 = 0" by simp
    then show ?thesis using True by (simp add: winc_def)
  next
    case False
    then show ?thesis by (simp add: winc_def)
  qed
qed

lemma hnu_valid:
  assumes "hvalid G (c, r)" "q \<in> hnu G (c, r)"
  shows "hvalid G q"
proof -
  have c: "0 \<le> c" "c < 4 * G" and r: "0 \<le> r" "r < G" using assms(1) by (auto simp: hvalid_def)
  note w = w_range(1) [OF c] w_range(2) [OF c] w_range(1) [OF r] w_range(2) [OF r]
  show ?thesis
    using assms(2) c r w unfolding hnu_def Let_def fst_conv snd_conv hvalid_def
    by (auto split: if_splits)
qed

lemma hnu_sym:
  assumes "hvalid G (c, r)" "q \<in> hnu G (c, r)"
  shows "(c, r) \<in> hnu G q"
proof -
  have c: "0 \<le> c" "c < 4 * G" and r: "0 \<le> r" "r < G" using assms(1) by (auto simp: hvalid_def)
  let ?cm = "wdec (4 * G) c" and ?cp = "winc (4 * G) c"
  let ?rm = "wdec G r" and ?rp = "winc G r"
  have i1: "winc (4 * G) ?cm = c" "wdec (4 * G) ?cp = c" "winc G ?rm = r" "wdec G ?rp = r"
    using c r by (simp_all add: winc_wdec wdec_winc)
  have m: "?cm mod 4 = (c - 1) mod 4" "?cp mod 4 = (c + 1) mod 4"
    using w_mod4 [OF c] by simp_all
  have "c mod 4 = 0 \<or> c mod 4 = 1 \<or> c mod 4 = 2 \<or> c mod 4 = 3" by presburger
  then consider "c mod 4 = 0" | "c mod 4 = 1" | "c mod 4 = 2" | "c mod 4 = 3"
    by blast
  then show ?thesis
  proof cases
    case 1
    then have k: "(c - 1) mod 4 = 3" "(c + 1) mod 4 = 1" by presburger+
    have z: "c mod 4 \<noteq> 1" "c mod 4 \<noteq> 2" "c mod 4 \<noteq> 3" using 1 by simp_all
    from assms(2) z have "q = (?cm, r) \<or> q = (?cp, ?rm) \<or> q = (?cp, r)"
      by (simp add: hnu_def Let_def)
    then show ?thesis
      by (auto simp: hnu_def Let_def m k i1)
  next
    case 2
    then have k: "(c - 1) mod 4 \<noteq> 1" "(c - 1) mod 4 \<noteq> 2" "(c - 1) mod 4 \<noteq> 3"
      "(c + 1) mod 4 = 2" by presburger+
    from assms(2) 2 have "q = (?cm, r) \<or> q = (?cm, ?rp) \<or> q = (?cp, r)"
      by (simp add: hnu_def Let_def)
    then show ?thesis
      by (auto simp: hnu_def Let_def m k i1)
  next
    case 3
    then have k: "(c - 1) mod 4 = 1" "(c + 1) mod 4 = 3" by presburger+
    from assms(2) 3 have "q = (?cm, r) \<or> q = (?cp, r) \<or> q = (?cp, ?rp)"
      by (simp add: hnu_def Let_def)
    then show ?thesis
      by (auto simp: hnu_def Let_def m k i1)
  next
    case 4
    then have k: "(c - 1) mod 4 = 2" "(c + 1) mod 4 \<noteq> 1" "(c + 1) mod 4 \<noteq> 2"
      "(c + 1) mod 4 \<noteq> 3" by presburger+
    from assms(2) 4 have "q = (?cm, ?rm) \<or> q = (?cm, r) \<or> q = (?cp, r)"
      by (simp add: hnu_def Let_def)
    then show ?thesis
      by (auto simp: hnu_def Let_def m k i1)
  qed
qed

lemma hnc_len: "length (hnc G p) = 3"
  by (simp add: hnc_def Let_def)

lemma hnc_hnu:
  fixes G c r :: int
  assumes "hvalid G (c, r)"
  shows "set (hnc G (c, r)) = hnu G (c, r)"
proof -
  have c: "0 \<le> c" "c < 4 * G" and r: "0 \<le> r" "r < G" using assms(1) by (auto simp: hvalid_def)
  have e3: "(4 * G - 1) mod 4 = 3"
  proof -
    have "(4 * G - 1) mod 4 = (3 + (G - 1) * 4) mod 4" by (simp add: algebra_simps)
    also have "\<dots> = 3 mod 4" by (rule mod_mult_self1)
    finally show ?thesis by simp
  qed
  have e2: "(4 * G - 2) mod 4 = 2"
  proof -
    have "(4 * G - 2) mod 4 = (2 + (G - 1) * 4) mod 4" by (simp add: algebra_simps)
    also have "\<dots> = 2 mod 4" by (rule mod_mult_self1)
    finally show ?thesis by simp
  qed
  have "c mod 4 = 0 \<or> c mod 4 = 1 \<or> c mod 4 = 2 \<or> c mod 4 = 3" by presburger
  then consider "c mod 4 = 0" | "c mod 4 = 1" | "c mod 4 = 2" | "c mod 4 = 3"
    by blast
  then show ?thesis
  proof cases
    case 1
    then have z: "c mod 4 \<noteq> 1" "c mod 4 \<noteq> 2" "c mod 4 \<noteq> 3" by simp_all
    have n: "c \<noteq> 4 * G - 1" "c \<noteq> 4 * G - 2" using e3 e2 1 by auto
    show ?thesis using c r z n
      by (auto simp: hnc_def hnu_def Let_def wdec_def winc_def)
  next
    case 2
    have n: "c \<noteq> 4 * G - 1" "c \<noteq> 4 * G - 2" "c \<noteq> 0" using e3 e2 2 by auto
    show ?thesis using c r 2 n
      by (auto simp: hnc_def hnu_def Let_def wdec_def winc_def)
  next
    case 3
    have n: "c \<noteq> 4 * G - 1" "c \<noteq> 0" using e3 3 by auto
    show ?thesis using c r 3 n
      by (auto simp: hnc_def hnu_def Let_def wdec_def winc_def)
  next
    case 4
    have n: "c \<noteq> 4 * G - 2" "c \<noteq> 0" using e2 4 by auto
    have z: "c mod 4 \<noteq> 1" "c mod 4 \<noteq> 2" using 4 by simp_all
    show ?thesis using c r 4 z n
      by (auto simp: hnc_def hnu_def Let_def wdec_def winc_def)
  qed
qed

lemma i32_num: "0 \<le> x \<Longrightarrow> x < 2147483648 \<Longrightarrow> i32 x = x"
  by (intro i32_id) simp_all

lemma trunc_of_int: "trunc (of_int z) = z"
  by (simp add: trunc_def)

lemma honey_small:
  fixes G K :: int
  assumes "1 \<le> G" "0 \<le> K" "K \<le> 4 * G"
  shows "0 \<le> K * G" "K * G \<le> 4 * G * G" "G \<le> 4 * G * G"
proof -
  show "0 \<le> K * G" using assms by simp
  show "K * G \<le> 4 * G * G" using assms by (intro mult_right_mono) simp_all
  have "1 * G \<le> (4 * G) * G" using assms by (intro mult_right_mono) simp_all
  then show "G \<le> 4 * G * G" by simp
qed

lemma firstRow_entry_val:
  fixes g k :: nat
  assumes g: "1 \<le> g" and b: "4 * int g * int g < 2 ^ 31" and k: "1 \<le> k" "k \<le> 2 * g"
  shows "firstRow_entry g k = (if odd k then (2 * int k - 2) * int g else (2 * int k - 1) * int g)"
proof -
  define G where "G = int g"
  define K where "K = int k"
  have G: "1 \<le> G" and K: "1 \<le> K" "K \<le> 2 * G" using g k by (simp_all add: G_def K_def)
  have B: "4 * G * G < 2147483648" using b by (simp add: G_def)
  have s3: "0 \<le> 3 * G" "3 * G \<le> 4 * G * G"
    using honey_small(1,2) [of G 3] G by simp_all
  have s2k: "0 \<le> (2 * K) * G" "(2 * K) * G \<le> 4 * G * G"
    using honey_small(1,2) [of G "2 * K"] G K by simp_all
  have ong: "(of_nat g :: rat) = of_int G" by (simp add: G_def)
  have u3: "u32 (3 * G) = 3 * G" using s3 B by (simp add: u32_def)
  have u2: "u64 (2 * K * G) = 2 * K * G" using s2k B by (simp add: u64_def)
  show ?thesis
  proof (cases "odd k")
    case True
    have v: "0 \<le> (2 * K - 2) * G" "(2 * K - 2) * G \<le> 4 * G * G"
      using honey_small(1,2) [of G "2 * K - 2"] G K by simp_all
    have "(1 - (1 / 2) * of_int (3 * G) + (1 / 2) * ((- 1) ^ k * of_int G)
            + of_int (2 * K * G) - 1 :: rat) = of_int ((2 * K - 2) * G)"
      using True by (simp add: algebra_simps)
    then have "firstRow_entry g k = i32 ((2 * K - 2) * G)"
      by (simp only: firstRow_entry_def G_def [symmetric] K_def [symmetric] u3 u2 ong
          trunc_of_int)
    also have "\<dots> = (2 * K - 2) * G" using v B by (simp add: i32_def)
    finally show ?thesis using True by (simp add: G_def K_def)
  next
    case False
    have v: "0 \<le> (2 * K - 1) * G" "(2 * K - 1) * G \<le> 4 * G * G"
      using honey_small(1,2) [of G "2 * K - 1"] G K by simp_all
    have "(1 - (1 / 2) * of_int (3 * G) + (1 / 2) * ((- 1) ^ k * of_int G)
            + of_int (2 * K * G) - 1 :: rat) = of_int ((2 * K - 1) * G)"
      using False by (simp add: algebra_simps)
    then have "firstRow_entry g k = i32 ((2 * K - 1) * G)"
      by (simp only: firstRow_entry_def G_def [symmetric] K_def [symmetric] u3 u2 ong
          trunc_of_int)
    also have "\<dots> = (2 * K - 1) * G" using v B by (simp add: i32_def)
    finally show ?thesis using False by (simp add: G_def K_def)
  qed
qed

lemma lastRow_entry_val:
  fixes g k :: nat
  assumes g: "1 \<le> g" and b: "4 * int g * int g < 2 ^ 31" and k: "1 \<le> k" "k \<le> 2 * g"
  shows "lastRow_entry g k =
           (if odd k then 2 * int k * int g - 1 else (2 * int k - 1) * int g - 1)"
proof -
  define G where "G = int g"
  define K where "K = int k"
  have G: "1 \<le> G" and K: "1 \<le> K" "K \<le> 2 * G" using g k by (simp_all add: G_def K_def)
  have B: "4 * G * G < 2147483648" using b by (simp add: G_def)
  have ong: "(of_nat g :: rat) = of_int G" by (simp add: G_def)
  have "G \<le> 4 * G * G" using honey_small(3) [of G 0] G by simp
  then have "4 * K < 17179869184" using K B by linarith
  then have u4: "u64 (4 * K) = 4 * K" using K by (simp add: u64_def)
  show ?thesis
  proof (cases "odd k")
    case True
    have v: "0 \<le> (2 * K) * G" "(2 * K) * G \<le> 4 * G * G"
      using honey_small(1,2) [of G "2 * K"] G K by simp_all
    have v1: "1 * 1 \<le> (2 * K) * G" using G K by (intro mult_mono) simp_all
    have "((1 / 2) * of_int G * (of_int (4 * K) + (- 1) ^ (k + 1) - 1) - 1 :: rat)
            = of_int (2 * K * G - 1)"
      using True by (simp add: algebra_simps)
    then have "lastRow_entry g k = i32 (2 * K * G - 1)"
      by (simp only: lastRow_entry_def G_def [symmetric] K_def [symmetric] u4 ong
          trunc_of_int)
    also have "\<dots> = 2 * K * G - 1" by (rule i32_num) (use v v1 B in linarith)+
    finally show ?thesis using True by (simp add: G_def K_def)
  next
    case False
    have v: "0 \<le> (2 * K - 1) * G" "(2 * K - 1) * G \<le> 4 * G * G"
      using honey_small(1,2) [of G "2 * K - 1"] G K by simp_all
    have v1: "1 * 1 \<le> (2 * K - 1) * G" using G K by (intro mult_mono) simp_all
    have "((1 / 2) * of_int G * (of_int (4 * K) + (- 1) ^ (k + 1) - 1) - 1 :: rat)
            = of_int ((2 * K - 1) * G - 1)"
      using False by (simp add: algebra_simps)
    then have "lastRow_entry g k = i32 ((2 * K - 1) * G - 1)"
      by (simp only: lastRow_entry_def G_def [symmetric] K_def [symmetric] u4 ong
          trunc_of_int)
    also have "\<dots> = (2 * K - 1) * G - 1" by (rule i32_num) (use v v1 B in linarith)+
    finally show ?thesis using False by (simp add: G_def K_def)
  qed
qed

lemma row_array_set:
  fixes g :: nat
  assumes "1 \<le> g" "4 * int g * int g < 2 ^ 31"
  shows "set (firstRow_array g) = firstRow_entry g ` {1..2 * g}"
    and "set (lastRow_array g) = lastRow_entry g ` {1..2 * g}"
proof -
  have "0 \<le> 2 * int g" "2 * int g \<le> 4 * int g * int g"
    using honey_small(1,2) [of "int g" 2] assms(1) by simp_all
  then have "u32 (2 * int g) = 2 * int g" using assms(2) by (simp add: u32_def)
  then have n: "nat (u32 (2 * int g)) = 2 * g" by simp
  show "set (firstRow_array g) = firstRow_entry g ` {1..2 * g}"
    unfolding firstRow_array_def n
    by (simp only: set_map set_upt atLeastLessThanSuc_atLeastAtMost)
  show "set (lastRow_array g) = lastRow_entry g ` {1..2 * g}"
    unfolding lastRow_array_def n
    by (simp only: set_map set_upt atLeastLessThanSuc_atLeastAtMost)
qed

lemma site_mod:
  fixes G c r :: int
  assumes "0 \<le> r" "r < G"
  shows "(c * G + r) mod G = r" "(c * G + r) div G = c"
  using assms by simp_all

lemma firstRow_mem:
  fixes g :: nat and c r :: int
  assumes g: "1 \<le> g" and b: "4 * int g * int g < 2 ^ 31"
    and hv: "hvalid (int g) (c, r)" and cm: "c mod 4 = 0 \<or> c mod 4 = 3"
  shows "(c * int g + r \<in> set (firstRow_array g)) \<longleftrightarrow> r = 0"
proof
  have r: "0 \<le> r" "r < int g" using hv by (simp_all add: hvalid_def)
  assume "c * int g + r \<in> set (firstRow_array g)"
  then obtain k where k: "1 \<le> k" "k \<le> 2 * g" and e: "c * int g + r = firstRow_entry g k"
    unfolding row_array_set(1) [OF g b] by auto
  have "\<exists>z. firstRow_entry g k = z * int g"
    unfolding firstRow_entry_val [OF g b k] by (cases "odd k") auto
  then obtain z where "c * int g + r = z * int g" using e by auto
  then have "(c * int g + r) mod int g = (z * int g) mod int g" by simp
  then show "r = 0" using site_mod(1) [OF r, of c] by simp
next
  have c: "0 \<le> c" "c < 4 * int g" using hv by (simp_all add: hvalid_def)
  assume r0: "r = 0"
  from cm show "c * int g + r \<in> set (firstRow_array g)"
  proof
    assume m: "c mod 4 = 0"
    define k where "k = nat (c div 2 + 1)"
    have ik: "int k = c div 2 + 1" using c by (simp add: k_def)
    have v: "2 * int k - 2 = c" using ik m by presburger
    have "odd (int k)" using ik m by presburger
    then have o: "odd k" by simp
    have k: "1 \<le> k" "k \<le> 2 * g" using ik c m by presburger+
    have "firstRow_entry g k = c * int g"
      unfolding firstRow_entry_val [OF g b k] using o v by simp
    then have "c * int g + r = firstRow_entry g k" using r0 by simp
    moreover have "k \<in> {1..2 * g}" using k by simp
    ultimately show ?thesis unfolding row_array_set(1) [OF g b] by (rule image_eqI)
  next
    assume m: "c mod 4 = 3"
    define k where "k = nat ((c + 1) div 2)"
    have ik: "int k = (c + 1) div 2" using c by (simp add: k_def)
    have v: "2 * int k - 1 = c" using ik m by presburger
    have "even (int k)" using ik m by presburger
    then have o: "even k" by simp
    have k: "1 \<le> k" "k \<le> 2 * g" using ik c m by presburger+
    have "firstRow_entry g k = c * int g"
      unfolding firstRow_entry_val [OF g b k] using o v by simp
    then have "c * int g + r = firstRow_entry g k" using r0 by simp
    moreover have "k \<in> {1..2 * g}" using k by simp
    ultimately show ?thesis unfolding row_array_set(1) [OF g b] by (rule image_eqI)
  qed
qed

lemma lastRow_mem:
  fixes g :: nat and c r :: int
  assumes g: "1 \<le> g" and b: "4 * int g * int g < 2 ^ 31"
    and hv: "hvalid (int g) (c, r)" and cm: "c mod 4 = 1 \<or> c mod 4 = 2"
  shows "(c * int g + r \<in> set (lastRow_array g)) \<longleftrightarrow> r = int g - 1"
proof
  have r: "0 \<le> r" "r < int g" using hv by (simp_all add: hvalid_def)
  have g1: "0 \<le> int g - 1" "int g - 1 < int g" using g by simp_all
  assume "c * int g + r \<in> set (lastRow_array g)"
  then obtain k where k: "1 \<le> k" "k \<le> 2 * g" and e: "c * int g + r = lastRow_entry g k"
    unfolding row_array_set(2) [OF g b] by auto
  have "\<exists>z. lastRow_entry g k = z * int g + (int g - 1)"
  proof (cases "odd k")
    case True
    then have "lastRow_entry g k = (2 * int k - 1) * int g + (int g - 1)"
      unfolding lastRow_entry_val [OF g b k] by (simp add: algebra_simps)
    then show ?thesis by blast
  next
    case False
    then have "lastRow_entry g k = (2 * int k - 2) * int g + (int g - 1)"
      unfolding lastRow_entry_val [OF g b k] by (simp add: algebra_simps)
    then show ?thesis by blast
  qed
  then obtain z where "c * int g + r = z * int g + (int g - 1)" using e by auto
  then have "(c * int g + r) mod int g = (z * int g + (int g - 1)) mod int g" by simp
  then show "r = int g - 1"
    unfolding site_mod(1) [OF r, of c] site_mod(1) [OF g1, of z] .
next
  have c: "0 \<le> c" "c < 4 * int g" using hv by (simp_all add: hvalid_def)
  assume r0: "r = int g - 1"
  from cm show "c * int g + r \<in> set (lastRow_array g)"
  proof
    assume m: "c mod 4 = 1"
    define k where "k = nat ((c + 1) div 2)"
    have ik: "int k = (c + 1) div 2" using c by (simp add: k_def)
    have v: "2 * int k = c + 1" using ik m by presburger
    have "odd (int k)" using ik m by presburger
    then have o: "odd k" by simp
    have k: "1 \<le> k" "k \<le> 2 * g" using ik c m by presburger+
    have "lastRow_entry g k = (c + 1) * int g - 1"
      unfolding lastRow_entry_val [OF g b k] using o v by simp
    then have "c * int g + r = lastRow_entry g k" using r0 by (simp add: algebra_simps)
    moreover have "k \<in> {1..2 * g}" using k by simp
    ultimately show ?thesis unfolding row_array_set(2) [OF g b] by (rule image_eqI)
  next
    assume m: "c mod 4 = 2"
    define k where "k = nat ((c + 2) div 2)"
    have ik: "int k = (c + 2) div 2" using c by (simp add: k_def)
    have v: "2 * int k - 1 = c + 1" using ik m by presburger
    have "even (int k)" using ik m by presburger
    then have o: "even k" by simp
    have k: "1 \<le> k" "k \<le> 2 * g" using ik c m by presburger+
    have "lastRow_entry g k = (c + 1) * int g - 1"
      unfolding lastRow_entry_val [OF g b k] using o v by simp
    then have "c * int g + r = lastRow_entry g k" using r0 by (simp add: algebra_simps)
    moreover have "k \<in> {1..2 * g}" using k by simp
    ultimately show ?thesis unfolding row_array_set(2) [OF g b] by (rule image_eqI)
  qed
qed

lemma last_col_site:
  fixes G c :: int
  assumes "1 + c = G * 4"
  shows "G + G * c = G * (G * 4)"
proof -
  have "G + G * c = G * (1 + c)" by (simp add: algebra_simps)
  then show ?thesis by (simp only: assms)
qed

lemma hraw_hnc:
  fixes G c r :: int
  shows "hraw G (4 * G * G) (c * G + r) c r = map (site G) (hnc G (c, r))"
  by (auto simp add: hraw_def hnc_def site_def Let_def algebra_simps intro: last_col_site)

lemma site_range:
  fixes G :: int
  assumes "hvalid G q"
  shows "0 \<le> site G q" "site G q < 4 * G * G"
proof -
  obtain c r where q: "q = (c, r)" by (cases q)
  have c: "0 \<le> c" "c < 4 * G" and r: "0 \<le> r" "r < G" using assms by (auto simp: hvalid_def q)
  have G: "1 \<le> G" using r by simp
  have "0 \<le> c * G" using c G by simp
  then show "0 \<le> site G q" using r by (simp add: site_def q)
  have "c + 1 \<le> 4 * G" using c by simp
  then have "(c + 1) * G \<le> (4 * G) * G" using G by (intro mult_right_mono) simp_all
  then have "c * G + G \<le> 4 * G * G" by (simp add: algebra_simps)
  then show "site G q < 4 * G * G" using r by (simp add: site_def q)
qed

lemma site_conv:
  fixes G :: int
  assumes "hvalid G q" "4 * G * G < 2 ^ 31"
  shows "i32 (u64 (site G q)) = site G q"
proof -
  have s: "0 \<le> site G q" "site G q < 2147483648"
    using site_range [OF assms(1)] assms(2) by simp_all
  then have "u64 (site G q) = site G q" by (simp add: u64_def)
  then show ?thesis using s by (simp add: i32_num)
qed

lemma hnc_valid:
  assumes "hvalid G (c, r)" "q \<in> set (hnc G (c, r))"
  shows "hvalid G q"
  using assms hnu_valid hnc_hnu by blast

lemma hnc_conv:
  fixes G :: int
  assumes "hvalid G (c, r)" "4 * G * G < 2 ^ 31"
  shows "map (\<lambda>x. i32 (u64 x)) (map (site G) (hnc G (c, r))) = map (site G) (hnc G (c, r))"
proof -
  have "\<forall>q\<in>set (hnc G (c, r)). i32 (u64 (site G q)) = site G q"
    using hnc_valid [OF assms(1)] site_conv assms(2) by blast
  then show ?thesis by (simp add: comp_def)
qed

lemma site_eq:
  fixes G c r c' r' :: int
  assumes "0 \<le> r" "r < G" "0 \<le> r'" "r' < G"
  shows "(c * G + r = c' * G + r') \<longleftrightarrow> (c = c' \<and> r = r')"
proof
  assume e: "c * G + r = c' * G + r'"
  have "(c * G + r) div G = (c' * G + r') div G" "(c * G + r) mod G = (c' * G + r') mod G"
    using e by simp_all
  then show "c = c' \<and> r = r'"
    unfolding site_mod [OF assms(1,2)] site_mod [OF assms(3,4)] by simp
qed simp

lemma honey_coords:
  fixes G J :: int
  assumes "1 \<le> G" "0 \<le> J" "J < 4 * G * G"
  shows "hvalid G (J div G, J mod G)" "J = (J div G) * G + J mod G"
proof -
  have r: "0 \<le> J mod G" "J mod G < G" using assms(1) by simp_all
  have c0: "0 \<le> J div G" using assms(1,2) by (simp add: pos_imp_zdiv_nonneg_iff)
  have "J div G < 4 * G"
  proof (rule ccontr)
    assume "\<not> J div G < 4 * G"
    then have "4 * G \<le> J div G" by simp
    then have "(4 * G) * G \<le> (J div G) * G" using assms(1) by (intro mult_right_mono) simp_all
    moreover have "J = (J div G) * G + J mod G" by simp
    ultimately have "4 * G * G \<le> J" using r by linarith
    then show False using assms(3) by simp
  qed
  then show "hvalid G (J div G, J mod G)" using r c0 by (simp add: hvalid_def)
  show "J = (J div G) * G + J mod G" by simp
qed

lemma honey_col_hraw:
  fixes g i N :: nat
  assumes g: "1 \<le> g" and b: "4 * int g * int g < 2 ^ 31" and N: "N = 4 * g * g" and i: "i < N"
  shows "honey_col g N (firstRow_array g) (lastRow_array g) ((i div g) mod 4) i
           = map (\<lambda>x. i32 (u64 x))
               (hraw (int g) (4 * int g * int g) (int i) (int i div int g) (int i mod int g))"
proof -
  define G where "G = int g"
  define J where "J = int i"
  define M where "M = int N"
  define c where "c = J div G"
  define r where "r = J mod G"
  define cc where "cc = (i div g) mod 4"
  have G1: "1 \<le> G" using g by (simp add: G_def)
  have M: "M = 4 * G * G" by (simp add: M_def N G_def)
  have B: "M < 2147483648" using b by (simp add: M G_def)
  have J: "0 \<le> J" "J < M" using i by (simp_all add: J_def M_def)
  have hv: "hvalid G (c, r)" and Jcr: "J = c * G + r"
    using honey_coords [of G J] G1 J M by (simp_all add: c_def r_def)
  have cr: "0 \<le> c" "c < 4 * G" "0 \<le> r" "r < G" using hv by (simp_all add: hvalid_def)
  have "2 * G \<le> M" using honey_small(2) [of G 2] G1 by (simp add: M)
  then have GM: "G \<le> M" "2 * G \<le> M" "G + 1 \<le> M" using G1 by linarith+
  have uL2: "u32 (2 * G) = 2 * G" using G1 GM B by (simp add: u32_def)
  have uMG: "u32 (M - G) = M - G" using G1 GM B by (simp add: u32_def)
  have uMG1: "u32 (M - G - 1) = M - G - 1" using G1 GM B by (simp add: u32_def)
  have iJ: "i32 J = J" using J B by (intro i32_num) simp_all
  have MG: "M - G = (4 * G - 1) * G + 0" by (simp add: M algebra_simps)
  have MG1: "M - G - 1 = (4 * G - 2) * G + (G - 1)" by (simp add: M algebra_simps)
  have c1: "(i = 0) = (c = 0 \<and> r = 0)"
  proof -
    have "(i = 0) = (J = 0 * G + 0)" by (simp add: J_def)
    also have "\<dots> = (c = 0 \<and> r = 0)"
      unfolding Jcr using cr G1 by (intro site_eq) simp_all
    finally show ?thesis .
  qed
  have c2: "(J = M - G) = (c = 4 * G - 1 \<and> r = 0)"
    unfolding Jcr MG using cr G1 by (intro site_eq) simp_all
  have c3: "(J = M - G - 1) = (c = 4 * G - 2 \<and> r = G - 1)"
    unfolding Jcr MG1 using cr G1 by (intro site_eq) simp_all
  have c4: "(i < g) = (c = 0)"
  proof
    assume "i < g"
    then have "J < G" by (simp add: J_def G_def)
    then show "c = 0" using J by (simp add: c_def)
  next
    assume "c = 0"
    then have "J = r" using Jcr by simp
    then show "i < g" using cr by (simp add: J_def G_def)
  qed
  have c5: "(M - G < J) = (c = 4 * G - 1 \<and> r \<noteq> 0)"
  proof
    assume a: "M - G < J"
    have "c = 4 * G - 1"
    proof (rule ccontr)
      assume "c \<noteq> 4 * G - 1"
      then have "c + 1 \<le> 4 * G - 1" using cr by simp
      then have "(c + 1) * G \<le> (4 * G - 1) * G" using G1 by (intro mult_right_mono) simp_all
      then have "c * G + G \<le> M - G" by (simp add: M algebra_simps)
      then show False using a cr Jcr by linarith
    qed
    moreover have "r \<noteq> 0" using a calculation Jcr MG by auto
    ultimately show "c = 4 * G - 1 \<and> r \<noteq> 0" by simp
  next
    assume "c = 4 * G - 1 \<and> r \<noteq> 0"
    then have "J = M - G + r" "0 < r" using Jcr MG cr by auto
    then show "M - G < J" by simp
  qed
  have icc: "int cc = c mod 4"
    by (simp add: cc_def c_def J_def G_def zdiv_int zmod_int)
  have ccn: "(cc = 0) = (c mod 4 = 0)" "(cc = 1) = (c mod 4 = 1)" "(cc = 2) = (c mod 4 = 2)"
    using icc by presburger+
  have fm: "c mod 4 = 0 \<or> c mod 4 = 3 \<Longrightarrow> (J \<in> set (firstRow_array g)) = (r = 0)"
    using firstRow_mem [OF g b, of c r] hv unfolding Jcr G_def by simp
  have lm: "c mod 4 = 1 \<or> c mod 4 = 2 \<Longrightarrow> (J \<in> set (lastRow_array g)) = (r = G - 1)"
    using lastRow_mem [OF g b, of c r] hv unfolding Jcr G_def by simp
  have "c mod 4 = 0 \<or> c mod 4 = 1 \<or> c mod 4 = 2 \<or> c mod 4 = 3" by presburger
  then consider "c mod 4 = 0" | "c mod 4 = 1" | "c mod 4 = 2" | "c mod 4 = 3"
    by blast
  then have "honey_col g N (firstRow_array g) (lastRow_array g) cc i
           = map (\<lambda>x. i32 (u64 x)) (hraw G M J c r)"
  proof cases
    case 1
    have t: "(cc = 0) = True" "(c mod 4 = 1) = False" "(c mod 4 = 2) = False"
      "(c mod 4 = 3) = False" using 1 ccn by simp_all
    have m: "(J \<in> set (firstRow_array g)) = (r = 0)" using fm 1 by simp
    show ?thesis
      by (simp only: honey_col_def hraw_def Let_def G_def [symmetric] J_def [symmetric]
          M_def [symmetric] uL2 uMG uMG1 iJ c1 c2 c3 c4 c5 t m if_True if_False)
  next
    case 2
    have t: "(cc = 0) = False" "(cc = 1) = True" "(c mod 4 = 1) = True" using 2 ccn by simp_all
    have m: "(J \<in> set (lastRow_array g)) = (r = G - 1)" using lm 2 by simp
    show ?thesis
      by (simp only: honey_col_def hraw_def Let_def G_def [symmetric] J_def [symmetric]
          M_def [symmetric] uL2 uMG uMG1 iJ c1 c2 c3 c4 c5 t m if_True if_False)
  next
    case 3
    have t: "(cc = 0) = False" "(cc = 1) = False" "(cc = 2) = True"
      "(c mod 4 = 1) = False" "(c mod 4 = 2) = True" using 3 ccn by simp_all
    have m: "(J \<in> set (lastRow_array g)) = (r = G - 1)" using lm 3 by simp
    show ?thesis
      by (simp only: honey_col_def hraw_def Let_def G_def [symmetric] J_def [symmetric]
          M_def [symmetric] uL2 uMG uMG1 iJ c1 c2 c3 c4 c5 t m if_True if_False)
  next
    case 4
    have t: "(cc = 0) = False" "(cc = 1) = False" "(cc = 2) = False"
      "(c mod 4 = 1) = False" "(c mod 4 = 2) = False" "(c mod 4 = 3) = True"
      using 4 ccn by simp_all
    have m: "(J \<in> set (firstRow_array g)) = (r = 0)" using fm 4 by simp
    show ?thesis
      by (simp only: honey_col_def hraw_def Let_def G_def [symmetric] J_def [symmetric]
          M_def [symmetric] uL2 uMG uMG1 iJ c1 c2 c3 c4 c5 t m if_True if_False)
  qed
  then show ?thesis
    by (simp only: cc_def c_def r_def J_def G_def M)
qed

lemma honey_loop_map:
  fixes g :: nat
  assumes "0 < g"
  shows "honey_loop g N fr lr [i..<n] (i div g) ((i div g) mod 4)
           = map (\<lambda>j. honey_col g N fr lr ((j div g) mod 4) j) [i..<n]"
proof (induction "n - i" arbitrary: i)
  case 0
  then show ?case by simp
next
  case (Suc k)
  then have lt: "i < n" and k: "k = n - Suc i" by simp_all
  have u: "[i..<n] = i # [Suc i..<n]" using lt by (rule upt_conv_Cons)
  have d: "Suc i div g = (if Suc i mod g = 0 then Suc (i div g) else i div g)"
    by (rule div_Suc)
  show ?case
  proof (cases "Suc i mod g = 0")
    case True
    then have "Suc i div g = Suc (i div g)" using d by simp
    then show ?thesis using Suc.hyps(1) [OF k] True by (simp add: u)
  next
    case False
    then have "Suc i div g = i div g" using d by simp
    then show ?thesis using Suc.hyps(1) [OF k] False by (simp add: u)
  qed
qed

lemma BoundariesHoneycomb_map:
  fixes g :: nat
  assumes "0 < g"
  shows "BoundariesHoneycomb g N fr lr
           = map (\<lambda>j. honey_col g N fr lr ((j div g) mod 4) j) [0..<N]"
  unfolding BoundariesHoneycomb_def using honey_loop_map [OF assms, of N fr lr 0 N] by simp

lemma honey_column:
  fixes g a :: nat
  assumes g: "0 < g" and b: "4 * g * g < 2 ^ 31" and a: "a < 4 * g * g"
  shows "BoundariesHoneycomb g (4 * g * g) (firstRow_array g) (lastRow_array g) ! a
           = map (site (int g)) (hnc (int g) (int a div int g, int a mod int g))"
    and "hvalid (int g) (int a div int g, int a mod int g)"
proof -
  define G where "G = int g"
  have G1: "1 \<le> G" using g by (simp add: G_def)
  have "int (4 * g * g) < 2 ^ 31" using b by (simp only: of_nat_less_numeral_power_cancel_iff)
  then have B: "4 * G * G < 2 ^ 31" by (simp add: G_def)
  have A: "0 \<le> int a" "int a < 4 * G * G"
  proof -
    show "0 \<le> int a" by simp
    have "int a < int (4 * g * g)" using a by (simp only: of_nat_less_iff)
    then show "int a < 4 * G * G" by (simp add: G_def)
  qed
  have hv: "hvalid G (int a div G, int a mod G)" and e: "int a = (int a div G) * G + int a mod G"
    using honey_coords [OF G1 A] by simp_all
  have "BoundariesHoneycomb g (4 * g * g) (firstRow_array g) (lastRow_array g) ! a
          = honey_col g (4 * g * g) (firstRow_array g) (lastRow_array g) ((a div g) mod 4) a"
    unfolding BoundariesHoneycomb_map [OF g] using a by simp
  also have "\<dots> = map (\<lambda>x. i32 (u64 x)) (hraw G (4 * G * G) (int a) (int a div G) (int a mod G))"
    unfolding G_def using g B a by (intro honey_col_hraw) (simp_all add: G_def)
  also have "hraw G (4 * G * G) (int a) (int a div G) (int a mod G)
               = hraw G (4 * G * G) ((int a div G) * G + int a mod G) (int a div G) (int a mod G)"
    using e by simp
  also have "\<dots> = map (site G) (hnc G (int a div G, int a mod G))" by (rule hraw_hnc)
  also have "map (\<lambda>x. i32 (u64 x)) \<dots> = map (site G) (hnc G (int a div G, int a mod G))"
    using hv B by (rule hnc_conv)
  finally show "BoundariesHoneycomb g (4 * g * g) (firstRow_array g) (lastRow_array g) ! a
           = map (site (int g)) (hnc (int g) (int a div int g, int a mod int g))"
    by (simp only: G_def)
  show "hvalid (int g) (int a div int g, int a mod int g)" using hv by (simp only: G_def)
qed

lemma honey_table_ok:
  fixes g :: nat
  assumes g: "0 < g" and b: "4 * g * g < 2 ^ 31"
  shows "length (BoundariesHoneycomb g (4 * g * g) (firstRow_array g) (lastRow_array g))
           = 4 * g * g
         \<and> (\<forall>a<4 * g * g.
               length (BoundariesHoneycomb g (4 * g * g) (firstRow_array g) (lastRow_array g) ! a)
                 = 3
               \<and> (\<forall>b\<in>set (BoundariesHoneycomb g (4 * g * g) (firstRow_array g)
                               (lastRow_array g) ! a).
                     0 \<le> b \<and> b < int (4 * g * g)
                     \<and> int a \<in> set (BoundariesHoneycomb g (4 * g * g) (firstRow_array g)
                                       (lastRow_array g) ! nat b)))"
proof (intro conjI allI impI ballI)
  let ?T = "BoundariesHoneycomb g (4 * g * g) (firstRow_array g) (lastRow_array g)"
  define G where "G = int g"
  show "length ?T = 4 * g * g" by (simp add: BoundariesHoneycomb_map [OF g])
  fix a assume a: "a < 4 * g * g"
  define p where "p = (int a div G, int a mod G)"
  have col: "?T ! a = map (site G) (hnc G p)" and hv: "hvalid G p"
    using honey_column [OF g b a] by (simp_all add: G_def p_def)
  have ia: "int a = site G p" by (simp add: site_def p_def)
  show "length (?T ! a) = 3" by (simp add: col hnc_len)
  fix x assume "x \<in> set (?T ! a)"
  then obtain q where q: "q \<in> set (hnc G p)" and x: "x = site G q" using col by auto
  have qu: "q \<in> hnu G p" using q hnc_hnu [of G "fst p" "snd p"] hv by simp
  have hq: "hvalid G q" using hnu_valid [of G "fst p" "snd p" q] hv qu by simp
  have pq: "p \<in> hnu G q" using hnu_sym [of G "fst p" "snd p" q] hv qu by simp
  have N: "int (4 * g * g) = 4 * G * G" by (simp add: G_def)
  show x0: "0 \<le> x" using site_range(1) [OF hq] x by simp
  show xN: "x < int (4 * g * g)" using site_range(2) [OF hq] x N by simp
  have nb: "nat x < 4 * g * g" using x0 xN by linarith
  have qr: "0 \<le> snd q" "snd q < G" using hq by (simp_all add: hvalid_def)
  have "int (nat x) = fst q * G + snd q" using x0 x by (simp add: site_def)
  then have dm: "int (nat x) div G = fst q" "int (nat x) mod G = snd q"
    using site_mod [OF qr, of "fst q"] by simp_all
  have "?T ! nat x = map (site G) (hnc G q)"
    using honey_column(1) [OF g b nb] unfolding G_def [symmetric] dm by simp
  moreover have "site G p \<in> site G ` set (hnc G q)"
    using pq hnc_hnu [of G "fst q" "snd q"] hq by auto
  ultimately show "int a \<in> set (?T ! nat x)" using ia by simp
qed

section \<open>Neighbour tables are symmetric\<close>

lemma table_sizes:
  fixes g :: nat
  shows "g * g < 2 ^ 31 \<Longrightarrow> square_N g = g * g"
    and "4 * g * g < 2 ^ 31 \<Longrightarrow> honey_N g = 4 * g * g"
proof -
  assume "g * g < 2 ^ 31"
  then have "int (g * g) < 2 ^ 31" by (simp only: of_nat_less_numeral_power_cancel_iff)
  then have "int g * int g < 4294967296" by simp
  then have "u32 (int g * int g) = int g * int g" by (simp add: u32_def)
  then have "square_N g = nat (int (g * g))" by (simp add: square_N_def)
  then show "square_N g = g * g" by (simp only: nat_int)
next
  assume "4 * g * g < 2 ^ 31"
  then have "int (4 * g * g) < 2 ^ 31" by (simp only: of_nat_less_numeral_power_cancel_iff)
  then have "int g * int g * 4 < 4294967296" by simp
  then have "u32 (int g * int g * 4) = int g * int g * 4" by (simp add: u32_def)
  then have "honey_N g = nat (int (4 * g * g))" by (simp add: honey_N_def mult.commute)
  then show "honey_N g = 4 * g * g" by (simp only: nat_int)
qed

text \<open>
  Claim C4. For a grid size of at least 1 whose number of sites \<open>N\<close> (the square
  of the grid size, four times that for the honeycomb lattice) is below \<open>2^31\<close>,
  \<open>Initialize\<close> builds a table with \<open>N\<close> columns, every column has \<open>k\<close> entries
  (4 for the square lattice, 3 for the honeycomb lattice), every entry is a site
  index in \<open>[0, N)\<close>, and whenever \<open>b\<close> is an entry of the column of \<open>a\<close>, \<open>a\<close> is
  an entry of the column of \<open>b\<close>.
\<close>

theorem neighbour_table_symmetric:
  fixes g latticeMode :: nat
  assumes "1 \<le> g"
    and "latticeMode = 0 \<and> g * g < 2 ^ 31 \<or> latticeMode = 1 \<and> 4 * g * g < 2 ^ 31"
  shows "\<exists>k N T. neighbour_table latticeMode g = Some (k, N, T)
           \<and> k = (if latticeMode = 0 then 4 else 3)
           \<and> N = (if latticeMode = 0 then g * g else 4 * g * g)
           \<and> length T = N
           \<and> (\<forall>a<N. length (T ! a) = k
                 \<and> (\<forall>b\<in>set (T ! a). 0 \<le> b \<and> b < int N \<and> int a \<in> set (T ! nat b)))"
  using assms(2)
proof
  assume m: "latticeMode = 0 \<and> g * g < 2 ^ 31"
  then have g: "0 < g" and b: "g * g < 2 ^ 31" using assms(1) by simp_all
  have "neighbour_table latticeMode g = Some (4, g * g, BoundariesSquare g (g * g))"
    using m by (simp add: neighbour_table_def table_sizes(1) [OF b])
  then show ?thesis using square_table_ok [OF g b] m by simp
next
  assume m: "latticeMode = 1 \<and> 4 * g * g < 2 ^ 31"
  then have g: "0 < g" and b: "4 * g * g < 2 ^ 31" using assms(1) by simp_all
  have "neighbour_table latticeMode g
          = Some (3, 4 * g * g,
              BoundariesHoneycomb g (4 * g * g) (firstRow_array g) (lastRow_array g))"
    using m by (simp add: neighbour_table_def table_sizes(2) [OF b])
  then show ?thesis using honey_table_ok [OF g b] m by simp
qed

text \<open>The honeycomb lattice of grid size 2, with 16 sites, is an instance.\<close>

theorem neighbour_table_symmetric_witness:
  "\<exists>k N T. neighbour_table 1 2 = Some (k, N, T) \<and> k = 3 \<and> N = 16 \<and> length T = 16
     \<and> (\<forall>a<16. length (T ! a) = 3
           \<and> (\<forall>b\<in>set (T ! a). 0 \<le> b \<and> b < 16 \<and> int a \<in> set (T ! nat b)))"
  using neighbour_table_symmetric [of 2 1] by simp

text \<open>
  Without the bound the statement fails: for the square lattice of grid size 65537
  the product \<open>gridSize * gridSize\<close> wraps in \<open>uint32_t\<close> to \<open>N = 131073\<close>, and
  the column of site 65537, for which \<open>i % gridSize == 0\<close>, receives the entry
  \<open>i + gridSize - 1 = 131073 = N\<close>, which is not a site index.
\<close>

theorem neighbour_table_overflow_counterexample:
  "neighbour_table 0 65537 = Some (4, 131073, BoundariesSquare 65537 131073)
   \<and> BoundariesSquare 65537 131073 ! 65537 = [65538, 131073, 1, 0]
   \<and> \<not> BoundariesSquare 65537 131073 ! 65537 ! 1 < int 131073"
proof -
  have N: "square_N 65537 = 131073" by (simp add: square_N_def u32_def)
  have "BoundariesSquare 65537 131073 ! 65537 = square_col 65537 131073 ([0..<131073] ! 65537)"
    unfolding BoundariesSquare_def by (rule nth_map) simp
  also have "[0..<131073] ! 65537 = (65537::nat)"
    using nth_upt [of 0 65537 131073] by simp
  also have "square_col 65537 131073 65537 = [65538, 131073, 1, 0]"
    by (simp add: square_col_def u64_def i32_def Let_def)
  finally have c: "BoundariesSquare 65537 131073 ! 65537 = [65538, 131073, 1, 0]" .
  have "neighbour_table 0 65537 = Some (4, 131073, BoundariesSquare 65537 131073)"
    by (simp only: neighbour_table_def N) simp
  then show ?thesis using c by simp
qed

end
